theory Spec2Isabelle
  imports Main "HOL-Library.Word"
begin

section \<open>JavaScript strings\<close>

text \<open>
  A JavaScript string is a sequence of UTF-16 code units, and \<open>.length\<close> counts code
  units. The box glyphs the program prints (U+2502, U+2500, U+2026, ...) are single code
  units, so a string is modelled as a list of 16-bit words.
\<close>

type_synonym jchar = "16 word"
type_synonym jstring = "jchar list"

definition js :: "string \<Rightarrow> jstring" where
  \<comment> \<open>an ASCII literal of the source, as code units\<close>
  "js s = map (\<lambda>c. of_nat (of_char c)) s"

definition is_line_terminator :: "jchar \<Rightarrow> bool" where
  \<comment> \<open>ECMAScript LineTerminator: LF, CR, LS, PS\<close>
  "is_line_terminator c = (c = 0x0A \<or> c = 0x0D \<or> c = 0x2028 \<or> c = 0x2029)"

definition is_space :: "jchar \<Rightarrow> bool" where
  \<comment> \<open>the class \<open>\s\<close>, which is also what \<open>trim\<close> removes: WhiteSpace and LineTerminator\<close>
  "is_space c = (c = 0x09 \<or> c = 0x0A \<or> c = 0x0B \<or> c = 0x0C \<or> c = 0x0D \<or> c = 0x20
     \<or> c = 0xA0 \<or> c = 0x1680 \<or> (0x2000 \<le> c \<and> c \<le> 0x200A) \<or> c = 0x2028 \<or> c = 0x2029
     \<or> c = 0x202F \<or> c = 0x205F \<or> c = 0x3000 \<or> c = 0xFEFF)"

definition trim :: "jstring \<Rightarrow> jstring" where
  "trim s = rev (dropWhile is_space (rev (dropWhile is_space s)))"

definition repeat :: "jstring \<Rightarrow> nat \<Rightarrow> jstring" where
  \<comment> \<open>\<open>s.repeat(n)\<close>; every count the program passes is an indent or a \<open>Math.max(0, _)\<close>\<close>
  "repeat s n = concat (replicate n s)"

definition slice :: "jstring \<Rightarrow> int \<Rightarrow> int \<Rightarrow> jstring" where
  \<comment> \<open>\<open>s.slice(start, end)\<close>: a negative index counts from the end, both are clamped\<close>
  "slice s start end =
     (let len = int (length s);
          from = (if start < 0 then max (len + start) 0 else min start len);
          to = (if end < 0 then max (len + end) 0 else min end len)
      in take (nat (to - from)) (drop (nat from) s))"

definition padEnd :: "jstring \<Rightarrow> nat \<Rightarrow> jstring" where
  \<comment> \<open>\<open>s.padEnd(n)\<close>, filling with spaces\<close>
  "padEnd s n = s @ replicate (n - length s) 0x20"

fun join :: "jstring \<Rightarrow> jstring list \<Rightarrow> jstring" where
  "join sep [] = []"
| "join sep [x] = x"
| "join sep (x # y # ys) = x @ sep @ join sep (y # ys)"

definition toUpperCase :: "jstring \<Rightarrow> jstring" where
  \<comment> \<open>on ASCII, which is all the program passes to it (the literals
      \<open>details\<close>, \<open>contact\<close>, \<open>about\<close>)\<close>
  "toUpperCase s = map (\<lambda>c. if 0x61 \<le> c \<and> c \<le> 0x7A then c - 0x20 else c) s"

section \<open>Regular expressions\<close>

text \<open>
  The regular expressions of the source are kept as syntax trees and run by a backtracking
  matcher in the style of the ECMAScript specification. A cursor is the code unit before
  the current position (for \<open>^\<close>) and the input that remains. The matcher returns every way
  to match, as the cursors after the match, in the order in which backtracking tries them:
  the head of the list is the match that \<open>exec\<close> reports.
\<close>

type_synonym cursor = "jchar option \<times> jstring"

datatype regex =
    Cls "jchar \<Rightarrow> bool"             \<comment> \<open>one code unit of a class\<close>
  | Bol                             \<comment> \<open>\<open>^\<close> under the \<open>m\<close> flag\<close>
  | Seq regex regex
  | Rep nat "nat option" regex      \<comment> \<open>greedy \<open>{min,max}\<close>; \<open>max = None\<close> is unbounded\<close>

definition dec :: "nat option \<Rightarrow> nat option" where
  "dec mx = (case mx of None \<Rightarrow> None | Some n \<Rightarrow> Some (n - 1))"

text \<open>
  The repeat matcher: the mandatory iterations first; after them each further iteration
  is tried before stopping (greedy), and an iteration that consumes nothing is rejected.
\<close>

function rep_ms :: "(cursor \<Rightarrow> cursor list) \<Rightarrow> nat \<Rightarrow> nat option \<Rightarrow> cursor \<Rightarrow> cursor list" where
  "rep_ms f (Suc m) mx c = concat (map (rep_ms f m (dec mx)) (f c))"
| "rep_ms f 0 mx c =
     (if mx = Some 0 then [c]
      else concat (map (rep_ms f 0 (dec mx))
             (filter (\<lambda>d. length (snd d) < length (snd c)) (f c))) @ [c])"
  by pat_completeness auto
termination
  by (relation "measures [\<lambda>(f, m, mx, c). m, \<lambda>(f, m, mx, c). length (snd c)]") auto

declare rep_ms.simps [simp del]

primrec ms :: "regex \<Rightarrow> cursor \<Rightarrow> cursor list" where
  "ms (Cls P) = (\<lambda>c. case snd c of [] \<Rightarrow> [] | x # xs \<Rightarrow> if P x then [(Some x, xs)] else [])"
| "ms Bol = (\<lambda>c. case fst c of None \<Rightarrow> [c]
                 | Some x \<Rightarrow> if is_line_terminator x then [c] else [])"
| "ms (Seq a b) = (\<lambda>c. concat (map (ms b) (ms a c)))"
| "ms (Rep m mx r) = rep_ms (ms r) m mx"

definition exec :: "regex \<Rightarrow> cursor \<Rightarrow> cursor option" where
  "exec r c = (case ms r c of [] \<Rightarrow> None | d # _ \<Rightarrow> Some d)"

text \<open>
  \<open>s.replace(r, rep)\<close> for a global \<open>r\<close> and a replacement without \<open>$\<close>: the matches are
  found left to right, each search starting where the last match ended (one code unit
  further after an empty match).
\<close>

function replace :: "regex \<Rightarrow> jstring \<Rightarrow> cursor \<Rightarrow> jstring" where
  "replace r rep (p, s) =
     (case exec r (p, s) of
        Some (q, t) \<Rightarrow>
          if length t < length s then rep @ replace r rep (q, t)
          else rep @ (case s of [] \<Rightarrow> [] | x # xs \<Rightarrow> x # replace r rep (Some x, xs))
      | None \<Rightarrow> (case s of [] \<Rightarrow> [] | x # xs \<Rightarrow> x # replace r rep (Some x, xs)))"
  by pat_completeness auto
termination
  by (relation "measure (\<lambda>(r, rep, c). length (snd c))") auto

declare replace.simps [simp del]

text \<open>
  \<open>s.split(r)\<close>: the piece collected so far is \<open>acc\<close>; a match at the current position
  closes the piece, except an empty match right where the piece starts.
\<close>

function split_loop :: "regex \<Rightarrow> jstring \<Rightarrow> cursor \<Rightarrow> jstring list" where
  "split_loop r acc (p, s) =
     (case s of
        [] \<Rightarrow> [acc]
      | x # xs \<Rightarrow>
          (case exec r (p, s) of
             None \<Rightarrow> split_loop r (acc @ [x]) (Some x, xs)
           | Some (q, t) \<Rightarrow>
               if length t < length s then acc # split_loop r [] (q, t)
               else if acc = [] then split_loop r (acc @ [x]) (Some x, xs)
               else acc # split_loop r [] (p, s)))"
  by pat_completeness auto
termination
  by (relation "measures [\<lambda>(r, acc, c). length (snd c), \<lambda>(r, acc, c). length acc]") auto

declare split_loop.simps [simp del]

definition split :: "regex \<Rightarrow> jstring \<Rightarrow> jstring list" where
  "split r s =
     (if s = [] then (if exec r (None, []) = None then [[]] else [])
      else split_loop r [] (None, s))"

section \<open>The program\<close>

subsection \<open>Colours\<close>

definition sgr :: "string \<Rightarrow> jstring \<Rightarrow> jstring" where
  \<comment> \<open>\<open>`\x1b[<code>m${str}\x1b[0m`\<close>\<close>
  "sgr code str = [0x1B, 0x5B] @ js code @ [0x6D] @ str @ [0x1B, 0x5B, 0x30, 0x6D]"

definition cyan :: "jstring \<Rightarrow> jstring" where "cyan = sgr ''36''"
definition magenta :: "jstring \<Rightarrow> jstring" where "magenta = sgr ''35''"
definition yellow :: "jstring \<Rightarrow> jstring" where "yellow = sgr ''33''"
definition bold :: "jstring \<Rightarrow> jstring" where "bold = sgr ''1''"
definition dim :: "jstring \<Rightarrow> jstring" where "dim = sgr ''2''"

definition CONTENT_MARGIN :: int where
  "CONTENT_MARGIN = 1"

subsection \<open>clean\<close>

definition truthy :: "jstring option \<Rightarrow> bool" where
  \<comment> \<open>an absent field and the empty string are falsy\<close>
  "truthy v = (case v of None \<Rightarrow> False | Some s \<Rightarrow> s \<noteq> [])"

definition or_else :: "jstring option \<Rightarrow> jstring option \<Rightarrow> jstring option" where
  \<comment> \<open>\<open>a || b\<close>\<close>
  "or_else a b = (if truthy a then a else b)"

definition or_str :: "jstring option \<Rightarrow> jstring \<Rightarrow> jstring" where
  \<comment> \<open>\<open>a || "literal"\<close>\<close>
  "or_str a b = (case a of None \<Rightarrow> b | Some s \<Rightarrow> if s \<noteq> [] then s else b)"

definition re_bold :: regex where
  \<comment> \<open>\<open>/\*\*/g\<close>\<close>
  "re_bold = Seq (Cls (\<lambda>c. c = 0x2A)) (Cls (\<lambda>c. c = 0x2A))"

definition re_quote :: regex where
  \<comment> \<open>\<open>/^>\s?/gm\<close>\<close>
  "re_quote = Seq Bol (Seq (Cls (\<lambda>c. c = 0x3E)) (Rep 0 (Some 1) (Cls is_space)))"

definition re_newline_ws :: regex where
  \<comment> \<open>\<open>/\r?\n\s*/g\<close>\<close>
  "re_newline_ws =
     Seq (Rep 0 (Some 1) (Cls (\<lambda>c. c = 0x0D)))
       (Seq (Cls (\<lambda>c. c = 0x0A)) (Rep 0 None (Cls is_space)))"

definition clean :: "jstring option \<Rightarrow> jstring" where
  "clean text =
     (case text of
        None \<Rightarrow> []
      | Some t \<Rightarrow>
          if t = [] then []
          else trim (replace re_newline_ws [0x0A]
                 (None, replace re_quote [] (None, replace re_bold [] (None, t)))))"

subsection \<open>wrapText\<close>

definition re_newline :: regex where
  \<comment> \<open>\<open>/\r?\n/\<close>\<close>
  "re_newline = Seq (Rep 0 (Some 1) (Cls (\<lambda>c. c = 0x0D))) (Cls (\<lambda>c. c = 0x0A))"

definition re_spaces :: regex where
  \<comment> \<open>\<open>/\s+/\<close>\<close>
  "re_spaces = Rep 1 None (Cls is_space)"

text \<open>The body of \<open>words.forEach\<close>, on the pair of \<open>lines\<close> and \<open>current\<close>.\<close>

definition wrap_word :: "int \<Rightarrow> jstring list \<times> jstring \<Rightarrow> jstring \<Rightarrow> jstring list \<times> jstring" where
  "wrap_word width st word =
     (let lines = fst st; current = snd st;
          candidate = (if current \<noteq> [] then current @ [0x20] @ word else word)
      in if int (length candidate) > width
         then ((if current \<noteq> [] then lines @ [current] else lines), word)
         else (lines, candidate))"

definition wrap_para :: "int \<Rightarrow> jstring \<Rightarrow> jstring \<Rightarrow> jstring list" where
  "wrap_para width indentStr para =
     (let words = split re_spaces para;
          st = foldl (wrap_word width) ([], []) words;
          lines = (if snd st \<noteq> [] then fst st @ [snd st] else fst st)
      in map (\<lambda>l. indentStr @ l) lines)"

definition wrapText :: "jstring \<Rightarrow> int \<Rightarrow> nat \<Rightarrow> jstring list" where
  "wrapText text width indent =
     (if text = [] then []
      else let indentStr = repeat [0x20] indent
           in concat (map (wrap_para width indentStr)
                (filter (\<lambda>para. para \<noteq> []) (map trim (split re_newline text)))))"

subsection \<open>ANSI utilities\<close>

definition divider :: "jstring \<Rightarrow> nat \<Rightarrow> jstring" where
  "divider char len = repeat char len"

definition ansi_intro :: "jchar \<Rightarrow> bool" where
  \<comment> \<open>\<open>[\u001b\u009b]\<close>\<close>
  "ansi_intro c = (c = 0x1B \<or> c = 0x9B)"

definition ansi_prefix :: "jchar \<Rightarrow> bool" where
  \<comment> \<open>\<open>[[()#;?]\<close>\<close>
  "ansi_prefix c = (c = 0x5B \<or> c = 0x28 \<or> c = 0x29 \<or> c = 0x23 \<or> c = 0x3B \<or> c = 0x3F)"

definition digit :: "jchar \<Rightarrow> bool" where
  \<comment> \<open>\<open>[0-9]\<close>\<close>
  "digit c = (0x30 \<le> c \<and> c \<le> 0x39)"

definition ansi_final :: "jchar \<Rightarrow> bool" where
  \<comment> \<open>\<open>[0-9A-ORZcf-nqry=><]\<close>\<close>
  "ansi_final c = ((0x30 \<le> c \<and> c \<le> 0x39) \<or> (0x41 \<le> c \<and> c \<le> 0x4F) \<or> c = 0x52 \<or> c = 0x5A
     \<or> c = 0x63 \<or> (0x66 \<le> c \<and> c \<le> 0x6E) \<or> c = 0x71 \<or> c = 0x72 \<or> c = 0x79
     \<or> c = 0x3D \<or> c = 0x3E \<or> c = 0x3C)"

definition re_ansi :: regex where
  \<comment> \<open>\<open>/[\u001b\u009b][[()#;?]*(?:[0-9]{1,4}(?:;[0-9]{0,4})*)?[0-9A-ORZcf-nqry=><]/g\<close>\<close>
  "re_ansi =
     Seq (Cls ansi_intro)
       (Seq (Rep 0 None (Cls ansi_prefix))
         (Seq (Rep 0 (Some 1)
                (Seq (Rep 1 (Some 4) (Cls digit))
                     (Rep 0 None (Seq (Cls (\<lambda>c. c = 0x3B)) (Rep 0 (Some 4) (Cls digit))))))
              (Cls ansi_final)))"

definition stripAnsi :: "jstring \<Rightarrow> jstring" where
  "stripAnsi str = replace re_ansi [] (None, str)"

definition visibleLength :: "jstring \<Rightarrow> nat" where
  "visibleLength str = length (stripAnsi str)"

subsection \<open>Box rows\<close>

definition boxTop :: "jstring \<Rightarrow> int \<Rightarrow> jstring" where
  "boxTop label width =
     (let title = (if label \<noteq> [] then [0x20] @ label @ [0x20] else []);
          dash = max 0 (width - 2 - int (length title))
      in [0x256D] @ title @ divider [0x2500] (nat dash) @ [0x256E])"

definition boxBottom :: "int \<Rightarrow> jstring" where
  "boxBottom width = [0x2570] @ divider [0x2500] (nat (max 0 (width - 2))) @ [0x256F]"

definition boxLine :: "jstring \<Rightarrow> int \<Rightarrow> jstring" where
  "boxLine text width =
     (let inner = max 0 (width - 4 - CONTENT_MARGIN * 2);
          content = text;  \<comment> \<open>for a string, \<open>text\<close> or else the empty string is \<open>text\<close>\<close>
          visLen = visibleLength content;
          needsTruncate = (int visLen > inner);
          raw = (if needsTruncate then slice (stripAnsi content) 0 (inner - 1) @ [0x2026]
                 else content);
          padding = max 0 (inner - int (visibleLength raw));
          margin = repeat [0x20] (nat CONTENT_MARGIN)
      in [0x2502, 0x20] @ margin @ raw @ repeat [0x20] (nat padding) @ margin @ [0x20, 0x2502])"

definition boxDivider :: "jstring \<Rightarrow> int \<Rightarrow> jstring" where
  "boxDivider label width =
     (let tag = (if label \<noteq> [] then [0x20] @ toUpperCase label @ [0x20] else []);
          lineLen = max 0 (width - 2 - int (length tag))
      in [0x251C] @ tag @ divider [0x2500] (nat lineLen) @ [0x2524])"

definition fieldLine :: "string \<Rightarrow> jstring option \<Rightarrow> int \<Rightarrow> jstring option" where
  "fieldLine label v width =
     (case v of
        None \<Rightarrow> None
      | Some val \<Rightarrow>
          if val = [] then None
          else let labelText = padEnd (js label @ [0x3A]) 8
               in Some (boxLine (yellow labelText @ [0x20] @ val) width))"

subsection \<open>render\<close>

record profile =
  displayName :: "jstring option"
  username :: "jstring option"
  pronouns :: "jstring option"
  firstName :: "jstring option"
  lastName :: "jstring option"
  jobTitle :: "jstring option"
  timeZone :: "jstring option"
  email :: "jstring option"
  website :: "jstring option"
  about :: "jstring option"
  bio :: "jstring option"

definition box_width :: "int option \<Rightarrow> int" where
  \<comment> \<open>\<open>Math.max(60, Math.min(process.stdout.columns || 80, 100))\<close>; \<open>columns\<close> is
      undefined when standard output is not a terminal\<close>
  "box_width columns =
     max 60 (min (case columns of None \<Rightarrow> 80 | Some c \<Rightarrow> if c \<noteq> 0 then c else 80) 100)"

definition render_rows :: "profile \<Rightarrow> int option \<Rightarrow> jstring list" where
  \<comment> \<open>the array \<open>lines\<close> of \<open>render\<close>, after \<open>filter(Boolean)\<close>\<close>
  "render_rows p columns =
     (let about_text = clean (or_else (about p) (bio p));
          header = trim (bold (or_str (or_else (displayName p) (username p)) (js ''Zephinax''))
                     @ [0x20]
                     @ (if truthy (pronouns p) then [0x28] @ the (pronouns p) @ [0x29] else []));
          fullName = (if truthy (firstName p) \<or> truthy (lastName p)
                      then Some (trim (or_str (firstName p) [] @ [0x20] @ or_str (lastName p) []))
                      else None);
          width = box_width columns;
          contentWidth = max 0 (width - 4 - CONTENT_MARGIN * 2);
          primary = cyan header;
          secondary = (if truthy fullName then Some (dim (the fullName)) else None);
          aboutLines = (if about_text \<noteq> [] then wrapText about_text (contentWidth - 2) 0 else []);
          lines =
            [Some (boxTop (js ''Profile'') width),
             Some (boxLine primary width),
             (if truthy secondary then Some (boxLine (the secondary) width) else None),
             Some (boxDivider (js ''details'') width),
             fieldLine ''Role'' (jobTitle p) width,
             fieldLine ''Timezone'' (timeZone p) width,
             Some (boxDivider (js ''contact'') width),
             fieldLine ''Email'' (email p) width,
             fieldLine ''Web'' (website p) width,
             (if aboutLines \<noteq> [] then Some (boxDivider (js ''about'') width) else None)]
            @ map (\<lambda>l. Some (boxLine l width)) aboutLines
            @ [Some (boxBottom width)]
      in map the (filter truthy lines))"


subsection \<open>fetchProfile and main\<close>


datatype payload = Falsy | NoData | Data profile













definition empty_profile :: profile where
  \<comment> \<open>the JSON object \<open>{}\<close>\<close>
  "empty_profile = \<lparr>displayName = None, username = None, pronouns = None, firstName = None,
     lastName = None, jobTitle = None, timeZone = None, email = None, website = None,
     about = None, bio = None\<rparr>"

section \<open>Notions used in the properties\<close>


text \<open>
  Two runs of the matcher are compared through a relation on cursors: \<open>atoms_sim R r\<close>
  says that every atom of \<open>r\<close> maps \<open>R\<close>-related cursors to \<open>R\<close>-related results, and
  \<open>same_progress R\<close> that related cursors agree on which steps consume input.
\<close>

primrec atoms_sim :: "(cursor \<Rightarrow> cursor \<Rightarrow> bool) \<Rightarrow> regex \<Rightarrow> bool" where
  "atoms_sim R (Cls P) = (\<forall>c c'. R c c' \<longrightarrow> list_all2 R (ms (Cls P) c) (ms (Cls P) c'))"
| "atoms_sim R Bol = (\<forall>c c'. R c c' \<longrightarrow> list_all2 R (ms Bol c) (ms Bol c'))"
| "atoms_sim R (Seq a b) = (atoms_sim R a \<and> atoms_sim R b)"
| "atoms_sim R (Rep m mx r) = atoms_sim R r"

definition same_progress :: "(cursor \<Rightarrow> cursor \<Rightarrow> bool) \<Rightarrow> bool" where
  "same_progress R = (\<forall>c c' d d'. R c c' \<longrightarrow> R d d' \<longrightarrow>
     (length (snd d) < length (snd c)) = (length (snd d') < length (snd c')))"

text \<open>The second cursor has the same input followed by \<open>tail\<close>.\<close>

definition ext_by :: "jstring \<Rightarrow> cursor \<Rightarrow> cursor \<Rightarrow> bool" where
  "ext_by tail c c' = (fst c' = fst c \<and> snd c' = snd c @ tail)"

text \<open>The two cursors differ at most in the code unit before the position.\<close>

definition same_rest :: "cursor \<Rightarrow> cursor \<Rightarrow> bool" where
  "same_rest c c' = (snd c = snd c')"

text \<open>The code units that some class of the ANSI pattern accepts.\<close>

definition ansi_char :: "jchar \<Rightarrow> bool" where
  "ansi_char c = (ansi_intro c \<or> ansi_prefix c \<or> digit c \<or> c = 0x3B \<or> ansi_final c)"

subsection \<open>Escape sequences in the input\<close>

text \<open>
  Every escape introducer of the string begins an escape sequence: the ANSI pattern
  matches at its position.
\<close>

fun well_escaped :: "jstring \<Rightarrow> bool" where
  "well_escaped [] = True"
| "well_escaped (x # xs) =
     ((ansi_intro x \<longrightarrow> exec re_ansi (None, x # xs) \<noteq> None) \<and> well_escaped xs)"

text \<open>
  The strings that the colour helpers build: text, styled text and their concatenations.
  \<open>printed\<close> is the string, \<open>text_of\<close> the text without the styling, and a markup is
  escape-free when none of its texts holds an escape introducer.
\<close>

datatype colour = Cyan | Magenta | Yellow | Bold | Dim

datatype markup = Plain jstring | Styled colour markup | Cat markup markup

fun paint :: "colour \<Rightarrow> jstring \<Rightarrow> jstring" where
  "paint Cyan = cyan"
| "paint Magenta = magenta"
| "paint Yellow = yellow"
| "paint Bold = bold"
| "paint Dim = dim"

fun printed :: "markup \<Rightarrow> jstring" where
  "printed (Plain t) = t"
| "printed (Styled c d) = paint c (printed d)"
| "printed (Cat d e) = printed d @ printed e"

fun text_of :: "markup \<Rightarrow> jstring" where
  "text_of (Plain t) = t"
| "text_of (Styled c d) = text_of d"
| "text_of (Cat d e) = text_of d @ text_of e"

fun escape_free :: "markup \<Rightarrow> bool" where
  "escape_free (Plain t) = (\<forall>c\<in>set t. \<not> ansi_intro c)"
| "escape_free (Styled c d) = escape_free d"
| "escape_free (Cat d e) = (escape_free d \<and> escape_free e)"

subsection \<open>The steps of clean\<close>

text \<open>
  The four steps as the specification words them, without regular expressions: remove
  every \<open>**\<close>, left to right; at each line start remove a \<open>>\<close> and one whitespace
  code unit after it; replace each line break (LF, or CR LF) together with the whitespace
  that follows by one LF; trim.
\<close>

fun remove_bold :: "jstring \<Rightarrow> jstring" where
  "remove_bold (a # b # s) =
     (if a = 0x2A \<and> b = 0x2A then remove_bold s else a # remove_bold (b # s))"
| "remove_bold s = s"

text \<open>The position is at a line start: nothing or a line terminator comes before it.\<close>

definition at_line_start :: "jchar option \<Rightarrow> bool" where
  "at_line_start p = (case p of None \<Rightarrow> True | Some c \<Rightarrow> is_line_terminator c)"

fun strip_quotes :: "bool \<Rightarrow> jstring \<Rightarrow> jstring" where
  "strip_quotes bol [] = []"
| "strip_quotes bol (x # s) =
     (if bol \<and> x = 0x3E
      then (case s of
              [] \<Rightarrow> []
            | y # t \<Rightarrow> if is_space y then strip_quotes (is_line_terminator y) t
                       else strip_quotes False s)
      else x # strip_quotes (is_line_terminator x) s)"

function collapse_breaks :: "jstring \<Rightarrow> jstring" where
  "collapse_breaks [] = []"
| "collapse_breaks (x # s) =
     (if x = 0x0A then 0x0A # collapse_breaks (dropWhile is_space s)
      else if x = 0x0D \<and> s \<noteq> [] \<and> hd s = 0x0A
           then 0x0A # collapse_breaks (dropWhile is_space (tl s))
      else x # collapse_breaks s)"
  by pat_completeness auto
termination
proof (relation "measure length")
  show "wf (measure length)" by simp
next
  fix x :: jchar and s :: jstring
  show "(dropWhile is_space s, x # s) \<in> measure length"
    by (simp add: length_dropWhile_le less_Suc_eq_le)
next
  fix x :: jchar and s :: jstring
  have "length (dropWhile is_space (tl s)) \<le> length (tl s)"
    by (rule length_dropWhile_le)
  then show "(dropWhile is_space (tl s), x # s) \<in> measure length"
    by simp
next
  fix x :: jchar and s :: jstring
  show "(s, x # s) \<in> measure length" by simp
qed

definition clean_spec :: "jstring option \<Rightarrow> jstring" where
  "clean_spec text =
     (case text of
        None \<Rightarrow> []
      | Some t \<Rightarrow> trim (collapse_breaks (strip_quotes True (remove_bold t))))"

text \<open>No line break is followed by whitespace; no two asterisks are adjacent.\<close>

fun breaks_collapsed :: "jstring \<Rightarrow> bool" where
  "breaks_collapsed (a # b # s) = ((a = 0x0A \<longrightarrow> \<not> is_space b) \<and> breaks_collapsed (b # s))"
| "breaks_collapsed s = True"

fun no_bold :: "jstring \<Rightarrow> bool" where
  "no_bold (a # b # s) = (\<not> (a = 0x2A \<and> b = 0x2A) \<and> no_bold (b # s))"
| "no_bold s = True"

subsection \<open>Words and spacing\<close>

text \<open>
  The whitespace-delimited words of a text, read off the text itself: its maximal runs of
  code units that are not whitespace, in order. \<open>cur\<close> is the word being read.
\<close>

fun tokens_acc :: "jstring \<Rightarrow> jstring \<Rightarrow> jstring list" where
  "tokens_acc cur [] = (if cur = [] then [] else [cur])"
| "tokens_acc cur (x # xs) =
     (if is_space x then (if cur = [] then [] else [cur]) @ tokens_acc [] xs
      else tokens_acc (cur @ [x]) xs)"

definition tokens :: "jstring \<Rightarrow> jstring list" where
  "tokens s = tokens_acc [] s"

text \<open>
  A line is single-spaced when it is a non-empty sequence of words with exactly one
  U+0020 between neighbours and no other whitespace: it neither starts nor ends with
  whitespace, and holds no tab and no run of two or more whitespace code units.
\<close>

fun single_spaced :: "jstring \<Rightarrow> bool" where
  "single_spaced [] = False"
| "single_spaced [c] = (\<not> is_space c)"
| "single_spaced (c # d # cs) =
     (\<not> is_space c \<and> (if is_space d then d = 0x20 \<and> single_spaced cs else single_spaced (d # cs)))"

text \<open>A word: not empty and free of whitespace.\<close>

definition solid :: "jstring \<Rightarrow> bool" where
  "solid w = (w \<noteq> [] \<and> (\<forall>c\<in>set w. \<not> is_space c))"

text \<open>
  The loop of \<open>wrapText\<close> over the words of one paragraph, with the final push of
  \<open>current\<close>.
\<close>

definition finish :: "jstring list \<times> jstring \<Rightarrow> jstring list" where
  "finish st = (if snd st \<noteq> [] then fst st @ [snd st] else fst st)"

definition pack :: "int \<Rightarrow> jstring list \<Rightarrow> jstring list" where
  "pack width ws = finish (foldl (wrap_word width) ([], []) ws)"

text \<open>The loop invariant behind single-spaced lines.\<close>

definition tidy :: "jstring list \<times> jstring \<Rightarrow> bool" where
  "tidy st = ((\<forall>l\<in>set (fst st). single_spaced l) \<and> (snd st = [] \<or> single_spaced (snd st)))"

section \<open>The matcher\<close>

subsection \<open>Two runs of the matcher\<close>

lemma list_all2_concat_map:
  assumes "list_all2 R xs ys"
    and "\<And>x y. x \<in> set xs \<Longrightarrow> R x y \<Longrightarrow> list_all2 S (f x) (g y)"
  shows "list_all2 S (concat (map f xs)) (concat (map g ys))"
  using assms
  by (induction rule: list_all2_induct) (auto intro: list_all2_appendI)

lemma list_all2_filter_same:
  assumes "list_all2 R xs ys" and "\<And>x y. R x y \<Longrightarrow> P x = Q y"
  shows "list_all2 R (filter P xs) (filter Q ys)"
  using assms(1)
  by (induction rule: list_all2_induct) (auto dest: assms(2))

lemma rep_ms_sim:
  assumes prog: "same_progress R"
  shows "(\<And>c c'. R c c' \<Longrightarrow> list_all2 R (f c) (g c')) \<Longrightarrow> R c c'
     \<Longrightarrow> list_all2 R (rep_ms f m mx c) (rep_ms g m mx c')"
proof (induction f m mx c arbitrary: c' rule: rep_ms.induct)
  case (1 f m mx c)
  have "list_all2 R (f c) (g c')"
    using "1.prems" by blast
  then have "list_all2 R (concat (map (rep_ms f m (dec mx)) (f c)))
          (concat (map (rep_ms g m (dec mx)) (g c')))"
    by (rule list_all2_concat_map) (use 1 in blast)
  then show ?case by (simp add: rep_ms.simps(1))
next
  case (2 f mx c)
  show ?case
  proof (cases "mx = Some 0")
    case True
    then show ?thesis using "2.prems" by (simp add: rep_ms.simps(2))
  next
    case False
    let ?P = "\<lambda>d. length (snd d) < length (snd c)"
    let ?Q = "\<lambda>d. length (snd d) < length (snd c')"
    have "list_all2 R (f c) (g c')"
      using "2.prems" by blast
    then have fl: "list_all2 R (filter ?P (f c)) (filter ?Q (g c'))"
    proof (rule list_all2_filter_same)
      fix x y assume "R x y"
      with prog "2.prems"(2) show "?P x = ?Q y"
        unfolding same_progress_def by blast
    qed
    have "list_all2 R (concat (map (rep_ms f 0 (dec mx)) (filter ?P (f c))))
          (concat (map (rep_ms g 0 (dec mx)) (filter ?Q (g c'))))"
      using fl by (rule list_all2_concat_map) (use 2 False in blast)
    then show ?thesis
      using False "2.prems"(2) by (simp add: rep_ms.simps(2) list_all2_appendI)
  qed
qed

lemma ms_sim:
  assumes "same_progress R"
  shows "atoms_sim R r \<Longrightarrow> R c c' \<Longrightarrow> list_all2 R (ms r c) (ms r c')"
proof (induction r arbitrary: c c')
  case (Cls P)
  then show ?case unfolding atoms_sim.simps by blast
next
  case Bol
  then show ?case unfolding atoms_sim.simps by blast
next
  case (Seq a b)
  have "list_all2 R (ms a c) (ms a c')"
    using Seq by simp
  then have "list_all2 R (concat (map (ms b) (ms a c))) (concat (map (ms b) (ms a c')))"
    by (rule list_all2_concat_map) (use Seq in simp)
  then show ?case by simp
next
  case (Rep m mx r)
  then show ?case
    using rep_ms_sim [OF assms, of "ms r" "ms r"] by simp
qed

lemma exec_sim:
  assumes "same_progress R" "atoms_sim R r" "R c c'"
  shows "rel_option R (exec r c) (exec r c')"
  using ms_sim [OF assms] by (auto simp: exec_def split: list.splits)

subsection \<open>The ANSI pattern\<close>

text \<open>
  The pattern has no \<open>^\<close>, so the code unit before the position does not matter; and a
  code unit that none of its classes accepts ends every attempt to match, as the end of
  the string does.
\<close>

lemma same_progress_ext_by: "same_progress (ext_by tail)"
  by (auto simp: same_progress_def ext_by_def)

lemma same_progress_same_rest: "same_progress same_rest"
  by (auto simp: same_progress_def same_rest_def)

lemma cls_same_rest: "same_rest c c' \<Longrightarrow> list_all2 same_rest (ms (Cls P) c) (ms (Cls P) c')"
  by (auto simp: same_rest_def split: list.splits)

lemma cls_ext_by:
  "\<not> P b \<Longrightarrow> ext_by (b # ys) c c' \<Longrightarrow> list_all2 (ext_by (b # ys)) (ms (Cls P) c) (ms (Cls P) c')"
  by (auto simp: ext_by_def split: list.splits)

lemma atoms_same_rest_ansi: "atoms_sim same_rest re_ansi"
  unfolding re_ansi_def atoms_sim.simps using cls_same_rest by blast

lemma atoms_ext_by_cls: "\<not> P b \<Longrightarrow> atoms_sim (ext_by (b # ys)) (Cls P)"
  unfolding atoms_sim.simps using cls_ext_by by blast

lemma atoms_ext_by_ansi:
  assumes "\<not> ansi_char b"
  shows "atoms_sim (ext_by (b # ys)) re_ansi"
  unfolding re_ansi_def atoms_sim.simps(3,4)
  by (intro conjI atoms_ext_by_cls) (use assms in \<open>simp_all add: ansi_char_def\<close>)

lemma ms_Seq_Cls_Nil: "ms (Seq (Cls P) r) (p, []) = []"
  by simp

lemma ms_Seq_Cls_Cons: "ms (Seq (Cls P) r) (p, x # xs) = (if P x then ms r (Some x, xs) else [])"
  by simp

lemma exec_ansi_Nil: "exec re_ansi (p, []) = None"
  unfolding exec_def re_ansi_def ms_Seq_Cls_Nil by simp

lemma exec_ansi_plain: "\<not> ansi_intro x \<Longrightarrow> exec re_ansi (p, x # xs) = None"
  unfolding exec_def re_ansi_def ms_Seq_Cls_Cons by simp

lemma replace_ansi_prev: "replace re_ansi rep (p, s) = replace re_ansi rep (p', s)"
proof (induction "length s" arbitrary: p p' s rule: less_induct)
  case less
  have "rel_option same_rest (exec re_ansi (p, s)) (exec re_ansi (p', s))"
    by (rule exec_sim [OF same_progress_same_rest atoms_same_rest_ansi]) (simp add: same_rest_def)
  then show ?case
  proof (cases rule: option.rel_cases)
    case None
    then show ?thesis by (simp add: replace.simps [of _ _ _ s])
  next
    case (Some c c')
    obtain q t where c: "c = (q, t)" by (cases c)
    obtain q' t' where c': "c' = (q', t')" by (cases c')
    have t: "t' = t" using Some c c' by (simp add: same_rest_def)
    show ?thesis
      using Some c c' t less [of t q q']
      by (simp add: replace.simps [of _ _ _ s])
  qed
qed

lemma replace_ansi_barrier:
  assumes "\<not> ansi_char b"
  shows "replace re_ansi [] (p, s @ b # ys) = replace re_ansi [] (p, s) @ b # replace re_ansi [] (None, ys)"
proof (induction "length s" arbitrary: p s rule: less_induct)
  case less
  have nb: "\<not> ansi_intro b" using assms by (simp add: ansi_char_def)
  show ?case
  proof (cases s)
    case Nil
    show ?thesis
      using replace_ansi_prev [of "[]" "Some b" ys None]
      by (simp add: Nil replace.simps [of _ _ _ "[]"] replace.simps [of _ _ _ "b # ys"]
          exec_ansi_Nil exec_ansi_plain [OF nb])
  next
    case (Cons x xs)
    have "rel_option (ext_by (b # ys)) (exec re_ansi (p, s)) (exec re_ansi (p, s @ b # ys))"
      by (rule exec_sim [OF same_progress_ext_by atoms_ext_by_ansi [OF assms]]) (simp add: ext_by_def)
    then show ?thesis
    proof (cases rule: option.rel_cases)
      case None
      then show ?thesis
        using less [of xs "Some x"]
        by (simp add: Cons replace.simps [of _ _ _ "x # xs"] replace.simps [of _ _ _ "x # xs @ b # ys"])
    next
      case (Some c c')
      obtain q t where c: "c = (q, t)" by (cases c)
      have c': "c' = (q, t @ b # ys)" using Some c by (cases c') (simp add: ext_by_def)
      show ?thesis
        using Some c c' less [of t q] less [of xs "Some x"]
        by (simp add: Cons replace.simps [of _ _ _ "x # xs"] replace.simps [of _ _ _ "x # xs @ b # ys"])
    qed
  qed
qed

lemma stripAnsi_barrier:
  "\<not> ansi_char b \<Longrightarrow> stripAnsi (s @ b # ys) = stripAnsi s @ b # stripAnsi ys"
  by (simp add: stripAnsi_def replace_ansi_barrier)

lemma replace_ansi_plain:
  "\<forall>c\<in>set s. \<not> ansi_intro c \<Longrightarrow> replace re_ansi [] (p, s) = s"
  by (induction s arbitrary: p)
     (simp_all add: replace.simps [of _ _ _ "[]"] replace.simps [of _ _ _ "_ # _"]
        exec_ansi_Nil exec_ansi_plain)

lemma stripAnsi_plain: "\<forall>c\<in>set s. \<not> ansi_intro c \<Longrightarrow> stripAnsi s = s"
  by (simp add: stripAnsi_def replace_ansi_plain)

subsection \<open>Visible length\<close>

lemma length_replace_le: "length (replace r [] (p, s)) \<le> length s"
proof (induction "length s" arbitrary: p s rule: less_induct)
  case less
  show ?case
  proof (cases "exec r (p, s)")
    case None
    show ?thesis
    proof (cases s)
      case Nil
      then show ?thesis using None by (simp add: replace.simps [of _ _ _ "[]"])
    next
      case (Cons x xs)
      then show ?thesis
        using None less [of xs "Some x"] by (simp add: replace.simps [of _ _ _ "x # xs"])
    qed
  next
    case (Some c)
    obtain q t where c: "c = (q, t)" by (cases c)
    show ?thesis
    proof (cases "length t < length s")
      case True
      then show ?thesis
        using Some c less [of t q] by (simp add: replace.simps [of _ _ _ s])
    next
      case False
      show ?thesis
      proof (cases s)
        case Nil
        then show ?thesis using Some c False by (simp add: replace.simps [of _ _ _ "[]"])
      next
        case (Cons x xs)
        then show ?thesis
          using Some c False less [of xs "Some x"]
          by (simp add: replace.simps [of _ _ _ "x # xs"])
      qed
    qed
  qed
qed

lemma visibleLength_le: "visibleLength s \<le> length s"
  by (simp add: visibleLength_def stripAnsi_def length_replace_le)

subsection \<open>Rows\<close>

lemma repeat_single: "repeat [c] n = replicate n c"
  by (induction n) (simp_all add: repeat_def)

lemma not_ansi_space: "\<not> ansi_char 0x20"
  by (simp add: ansi_char_def ansi_intro_def ansi_prefix_def digit_def ansi_final_def)

lemma not_ansi_ellipsis: "\<not> ansi_char 0x2026"
  by (simp add: ansi_char_def ansi_intro_def ansi_prefix_def digit_def ansi_final_def)

lemma visibleLength_snoc: "\<not> ansi_char b \<Longrightarrow> visibleLength (s @ [b]) = Suc (visibleLength s)"
  using stripAnsi_barrier [of b s "[]"]
  by (simp add: visibleLength_def stripAnsi_plain)

lemma visibleLength_row:
  "visibleLength ([0x2502, 0x20] @ replicate 1 0x20 @ raw @ replicate n 0x20 @ replicate 1 0x20 @ [0x20, 0x2502])
     = 6 + visibleLength raw + n"
proof -
  let ?tail = "replicate n 0x20 @ [0x20, 0x2502 :: jchar]"
  have tail: "stripAnsi ?tail = ?tail"
    by (rule stripAnsi_plain) (auto simp: ansi_intro_def)
  have "stripAnsi ([0x2502, 0x20] @ 0x20 # raw @ 0x20 # ?tail)
          = stripAnsi [0x2502, 0x20] @ 0x20 # stripAnsi (raw @ 0x20 # ?tail)"
    by (rule stripAnsi_barrier [OF not_ansi_space])
  also have "stripAnsi [0x2502, 0x20] = [0x2502, 0x20]"
    by (rule stripAnsi_plain) (simp add: ansi_intro_def)
  also have "stripAnsi (raw @ 0x20 # ?tail) = stripAnsi raw @ 0x20 # stripAnsi ?tail"
    by (rule stripAnsi_barrier [OF not_ansi_space])
  finally have strip: "stripAnsi ([0x2502, 0x20] @ 0x20 # raw @ 0x20 # ?tail)
          = [0x2502, 0x20] @ 0x20 # stripAnsi raw @ 0x20 # ?tail"
    by (simp add: tail)
  have row: "[0x2502, 0x20] @ replicate 1 0x20 @ raw @ replicate n 0x20 @ replicate 1 0x20 @ [0x20, 0x2502 :: jchar]
      = [0x2502, 0x20] @ 0x20 # raw @ 0x20 # ?tail"
    by (simp add: replicate_app_Cons_same)
  show ?thesis
    unfolding visibleLength_def row strip by simp
qed

lemma boxLine_visibleLength:
  "int (visibleLength (boxLine text width)) =
     (let inner = max 0 (width - 6);
          raw = (if int (visibleLength text) > inner
                 then slice (stripAnsi text) 0 (inner - 1) @ [0x2026] else text)
      in 6 + int (visibleLength raw) + max 0 (inner - int (visibleLength raw)))"
proof -
  define inner where "inner = max 0 (width - 6)"
  define raw where "raw = (if int (visibleLength text) > inner
                 then slice (stripAnsi text) 0 (inner - 1) @ [0x2026] else text)"
  define padding where "padding = max 0 (inner - int (visibleLength raw))"
  have "boxLine text width
      = [0x2502, 0x20] @ replicate 1 0x20 @ raw @ replicate (nat padding) 0x20 @ replicate 1 0x20 @ [0x20, 0x2502]"
    unfolding boxLine_def CONTENT_MARGIN_def Let_def repeat_single raw_def padding_def inner_def
    by simp
  then have "visibleLength (boxLine text width) = 6 + visibleLength raw + nat padding"
    by (simp only: visibleLength_row)
  then show ?thesis
    unfolding Let_def inner_def [symmetric] raw_def [symmetric] padding_def [symmetric]
    by (simp add: padding_def)
qed

lemma slice_prefix: "0 \<le> e \<Longrightarrow> slice s 0 e = take (nat e) s"
  by (simp add: slice_def Let_def min_def)

lemma visibleLength_pad: "visibleLength (s @ replicate n 0x20) = visibleLength s + n"
proof (cases n)
  case 0
  then show ?thesis by simp
next
  case (Suc k)
  have "stripAnsi (s @ 0x20 # replicate k 0x20) = stripAnsi s @ 0x20 # stripAnsi (replicate k 0x20)"
    by (rule stripAnsi_barrier [OF not_ansi_space])
  moreover have "stripAnsi (replicate k 0x20) = replicate k 0x20"
    by (rule stripAnsi_plain) (simp add: ansi_intro_def)
  ultimately show ?thesis
    by (simp add: Suc visibleLength_def)
qed

subsection \<open>Matches consume input\<close>

lemma rep_ms_shrinks:
  "(\<And>c d. d \<in> set (f c) \<Longrightarrow> length (snd d) \<le> length (snd c))
     \<Longrightarrow> d \<in> set (rep_ms f m mx c) \<Longrightarrow> length (snd d) \<le> length (snd c)"
proof (induction f m mx c arbitrary: d rule: rep_ms.induct)
  case (1 f m mx c)
  from "1.prems"(2) obtain e where e: "e \<in> set (f c)" and d: "d \<in> set (rep_ms f m (dec mx) e)"
    unfolding rep_ms.simps(1) [of f m mx c] by auto
  have "length (snd d) \<le> length (snd e)"
    using "1.IH" [OF e "1.prems"(1) d] .
  also have "\<dots> \<le> length (snd c)"
    using "1.prems"(1) [OF e] .
  finally show ?case .
next
  case (2 f mx c)
  show ?case
  proof (cases "mx = Some 0")
    case True
    then show ?thesis using "2.prems"(2) unfolding rep_ms.simps(2) [of f mx c] by simp
  next
    case False
    let ?P = "\<lambda>d. length (snd d) < length (snd c)"
    from "2.prems"(2) False consider "d = c"
      | e where "e \<in> set (filter ?P (f c))" "d \<in> set (rep_ms f 0 (dec mx) e)"
      unfolding rep_ms.simps(2) [of f mx c] by auto
    then show ?thesis
    proof cases
      case 1
      then show ?thesis by simp
    next
      case (2 e)
      have "length (snd d) \<le> length (snd e)"
        using "2.IH" [OF False 2(1) "2.prems"(1) 2(2)] .
      then show ?thesis using 2(1) by simp
    qed
  qed
qed

lemma ms_shrinks: "d \<in> set (ms r c) \<Longrightarrow> length (snd d) \<le> length (snd c)"
proof (induction r arbitrary: c d)
  case (Cls P)
  then show ?case by (cases c) (auto split: list.splits if_splits)
next
  case Bol
  then show ?case by (cases c) (auto split: option.splits if_splits)
next
  case (Seq a b)
  from Seq.prems obtain e where e: "e \<in> set (ms a c)" and d: "d \<in> set (ms b e)"
    by auto
  show ?case
    using Seq.IH(1) [OF e] Seq.IH(2) [OF d] by linarith
next
  case (Rep m mx r)
  then show ?case
    using rep_ms_shrinks [of "ms r" d m mx c] by simp
qed

lemma exec_ansi_shrinks:
  assumes "exec re_ansi (p, s) = Some (q, t)"
  shows "length t < length s"
proof (cases s)
  case Nil
  then show ?thesis using assms by (simp add: exec_ansi_Nil)
next
  case (Cons x xs)
  let ?rest = "Seq (Rep 0 None (Cls ansi_prefix))
         (Seq (Rep 0 (Some 1)
                (Seq (Rep 1 (Some 4) (Cls digit))
                     (Rep 0 None (Seq (Cls (\<lambda>c. c = 0x3B)) (Rep 0 (Some 4) (Cls digit))))))
              (Cls ansi_final))"
  have "(q, t) \<in> set (ms re_ansi (p, x # xs))"
    using assms by (auto simp: exec_def Cons split: list.splits)
  then have "(q, t) \<in> set (ms ?rest (Some x, xs))"
    unfolding re_ansi_def ms_Seq_Cls_Cons by (simp split: if_splits)
  then show ?thesis
    using ms_shrinks [of "(q, t)" ?rest "(Some x, xs)"] by (simp add: Cons)
qed

lemma exec_ansi_prev: "exec re_ansi (p, s) = None \<longleftrightarrow> exec re_ansi (p', s) = None"
proof -
  have "rel_option same_rest (exec re_ansi (p, s)) (exec re_ansi (p', s))"
    by (rule exec_sim [OF same_progress_same_rest atoms_same_rest_ansi]) (simp add: same_rest_def)
  then show ?thesis by (cases rule: option.rel_cases) simp_all
qed

section \<open>Splitting and wrapping\<close>

subsection \<open>The whitespace and line-break patterns\<close>

lemma concat_map_single: "concat (map (\<lambda>d. [d]) xs) = xs"
  by (induction xs) simp_all

lemma rep_ms_opt:
  "rep_ms f 0 (Some (Suc 0)) c = filter (\<lambda>d. length (snd d) < length (snd c)) (f c) @ [c]"
proof -
  have "rep_ms f 0 (Some 0) = (\<lambda>d. [d])"
    by (rule ext) (simp add: rep_ms.simps(2))
  then show ?thesis
    by (subst rep_ms.simps(2)) (simp add: dec_def concat_map_single)
qed

lemma rep_ms_star:
  "rep_ms f 0 None c =
     concat (map (rep_ms f 0 None) (filter (\<lambda>d. length (snd d) < length (snd c)) (f c))) @ [c]"
  by (subst rep_ms.simps(2)) (simp add: dec_def)

lemma rep_ms_plus: "rep_ms f (Suc 0) None c = concat (map (rep_ms f 0 None) (f c))"
  by (subst rep_ms.simps(1)) (simp add: dec_def)

lemma ms_Cls_Nil: "ms (Cls P) (p, []) = []"
  by simp

lemma ms_Cls_Cons: "ms (Cls P) (p, x # xs) = (if P x then [(Some x, xs)] else [])"
  by simp

lemma ms_opt_cls_Nil: "ms (Rep 0 (Some 1) (Cls P)) (p, []) = [(p, [])]"
  unfolding ms.simps(4) One_nat_def rep_ms_opt ms_Cls_Nil by simp

lemma ms_opt_cls_Cons:
  "ms (Rep 0 (Some 1) (Cls P)) (p, x # xs) = (if P x then [(Some x, xs), (p, x # xs)] else [(p, x # xs)])"
  unfolding ms.simps(4) One_nat_def rep_ms_opt ms_Cls_Cons by simp

lemma ms_star_cls_head:
  "\<exists>q rest. rep_ms (ms (Cls P)) 0 None (p, s) = (q, dropWhile P s) # rest"
proof (induction s arbitrary: p)
  case Nil
  show ?case
    by (subst rep_ms_star) (simp only: ms_Cls_Nil, simp)
next
  case (Cons x xs)
  show ?case
  proof (cases "P x")
    case True
    obtain q rest where "rep_ms (ms (Cls P)) 0 None (Some x, xs) = (q, dropWhile P xs) # rest"
      using Cons [of "Some x"] by blast
    then show ?thesis
      using True by (subst rep_ms_star) (simp only: ms_Cls_Cons, simp)
  next
    case False
    then show ?thesis
      by (subst rep_ms_star) (simp only: ms_Cls_Cons, simp)
  qed
qed

lemma exec_spaces_plain: "\<not> is_space x \<Longrightarrow> exec re_spaces (p, x # xs) = None"
  unfolding exec_def re_spaces_def ms.simps(4) One_nat_def rep_ms_plus ms_Cls_Cons by simp

lemma exec_spaces_space:
  assumes "is_space x"
  shows "\<exists>q. exec re_spaces (p, x # xs) = Some (q, dropWhile is_space xs)"
proof -
  obtain q rest where "rep_ms (ms (Cls is_space)) 0 None (Some x, xs) = (q, dropWhile is_space xs) # rest"
    using ms_star_cls_head by blast
  then show ?thesis
    using assms
    unfolding exec_def re_spaces_def ms.simps(4) One_nat_def rep_ms_plus ms_Cls_Cons by simp
qed

lemma ms_newline_Nil: "ms re_newline (p, []) = []"
  unfolding re_newline_def ms.simps(3) ms_opt_cls_Nil by simp

lemma ms_newline_Cons:
  "ms re_newline (p, x # xs) =
     (if x = 0x0A then [(Some 0x0A, xs)]
      else if x = 0x0D then (case xs of [] \<Rightarrow> [] | y # ys \<Rightarrow> if y = 0x0A then [(Some 0x0A, ys)] else [])
      else [])"
  unfolding re_newline_def ms.simps(3) ms_opt_cls_Cons
  by (simp only: ms_Cls_Cons ms_Cls_Nil split: list.splits) (auto split: list.splits)

lemma exec_newline:
  "exec re_newline (p, s) =
     (case s of
        [] \<Rightarrow> None
      | x # xs \<Rightarrow>
          if x = 0x0A then Some (Some 0x0A, xs)
          else if x = 0x0D then (case xs of [] \<Rightarrow> None
                 | y # ys \<Rightarrow> if y = 0x0A then Some (Some 0x0A, ys) else None)
          else None)"
  unfolding exec_def by (cases s) (simp_all only: ms_newline_Nil ms_newline_Cons, auto split: list.splits)

subsection \<open>Splitting on whitespace\<close>

lemma split_loop_Nil: "split_loop r acc (p, []) = [acc]"
  by (simp add: split_loop.simps [of _ _ _ "[]"])

lemma split_spaces_plain:
  "\<not> is_space x \<Longrightarrow> split_loop re_spaces acc (p, x # xs) = split_loop re_spaces (acc @ [x]) (Some x, xs)"
  by (simp add: split_loop.simps [of _ _ _ "x # xs"] exec_spaces_plain)

lemma length_dropWhile_less: "length (dropWhile P xs) < Suc (length xs)"
  by (simp add: length_dropWhile_le less_Suc_eq_le)

lemma split_spaces_space:
  assumes "is_space x"
  shows "\<exists>q. split_loop re_spaces acc (p, x # xs) = acc # split_loop re_spaces [] (q, dropWhile is_space xs)"
proof -
  obtain q where "exec re_spaces (p, x # xs) = Some (q, dropWhile is_space xs)"
    using exec_spaces_space [OF assms] by blast
  then have "split_loop re_spaces acc (p, x # xs) = acc # split_loop re_spaces [] (q, dropWhile is_space xs)"
    by (simp add: split_loop.simps [of _ _ _ "x # xs"] length_dropWhile_less)
  then show ?thesis by blast
qed

lemma tokens_acc_space:
  "is_space x \<Longrightarrow> tokens_acc cur (a @ x # b) = tokens_acc cur a @ tokens_acc [] b"
  by (induction a arbitrary: cur) simp_all

lemma tokens_acc_dropWhile: "tokens_acc [] (dropWhile is_space s) = tokens_acc [] s"
  by (induction s) simp_all

lemma tokens_acc_trailing:
  "\<forall>x\<in>set ws. is_space x \<Longrightarrow> tokens_acc cur (s @ ws) = tokens_acc cur s"
proof (induction ws rule: rev_induct)
  case Nil
  then show ?case by simp
next
  case (snoc x ws)
  have "tokens_acc cur ((s @ ws) @ x # []) = tokens_acc cur (s @ ws) @ tokens_acc [] []"
    using snoc.prems by (intro tokens_acc_space) simp
  then show ?case using snoc by simp
qed

lemma tokens_trim: "tokens (trim s) = tokens s"
proof -
  let ?d = "dropWhile is_space s"
  have "rev ?d = takeWhile is_space (rev ?d) @ dropWhile is_space (rev ?d)"
    by simp
  then have "?d = trim s @ rev (takeWhile is_space (rev ?d))"
    by (metis rev_append rev_rev_ident trim_def)
  moreover have "\<forall>x\<in>set (rev (takeWhile is_space (rev ?d))). is_space x"
    by (auto dest: set_takeWhileD)
  ultimately have "tokens_acc [] ?d = tokens_acc [] (trim s)"
    using tokens_acc_trailing by metis
  then show ?thesis
    by (simp add: tokens_def tokens_acc_dropWhile)
qed

lemma last_dropWhile: "dropWhile P xs \<noteq> [] \<Longrightarrow> last (dropWhile P xs) = last xs"
  by (induction xs) (auto split: if_splits)

lemma trim_hd: "trim s \<noteq> [] \<Longrightarrow> \<not> is_space (hd (trim s))"
proof -
  assume ne: "trim s \<noteq> []"
  let ?d = "dropWhile is_space s"
  have "trim s = []" if "?d = []"
    unfolding trim_def that by simp
  then have d: "?d \<noteq> []" using ne by blast
  have r: "dropWhile is_space (rev ?d) \<noteq> []" using ne by (simp add: trim_def)
  have "hd (trim s) = last (dropWhile is_space (rev ?d))"
    using r by (simp add: trim_def hd_rev)
  also have "\<dots> = last (rev ?d)" using r by (rule last_dropWhile)
  also have "\<dots> = hd ?d" using d by (simp add: last_rev)
  finally show ?thesis using d by (simp add: hd_dropWhile)
qed

lemma trim_last: "trim s \<noteq> [] \<Longrightarrow> \<not> is_space (last (trim s))"
proof -
  assume ne: "trim s \<noteq> []"
  let ?r = "dropWhile is_space (rev (dropWhile is_space s))"
  have r: "?r \<noteq> []" using ne by (simp add: trim_def)
  have "last (trim s) = hd ?r" using r by (simp add: trim_def last_rev)
  then show ?thesis using r by (simp add: hd_dropWhile)
qed

lemma split_spaces_tokens:
  "filter (\<lambda>w. w \<noteq> []) (split_loop re_spaces acc (p, s)) = tokens_acc acc s"
proof (induction "length s" arbitrary: acc p s rule: less_induct)
  case less
  show ?case
  proof (cases s)
    case Nil
    then show ?thesis by (simp add: split_loop_Nil)
  next
    case (Cons x xs)
    show ?thesis
    proof (cases "is_space x")
      case False
      then show ?thesis
        using less [of xs "acc @ [x]" "Some x"] by (simp add: Cons split_spaces_plain)
    next
      case True
      obtain q where q: "split_loop re_spaces acc (p, x # xs) = acc # split_loop re_spaces [] (q, dropWhile is_space xs)"
        using split_spaces_space [OF True] by blast
      have "filter (\<lambda>w. w \<noteq> []) (split_loop re_spaces [] (q, dropWhile is_space xs)) = tokens_acc [] xs"
        using less [of "dropWhile is_space xs" "[]" q]
        by (simp add: Cons length_dropWhile_less tokens_acc_dropWhile)
      then show ?thesis
        using True by (simp add: Cons q)
    qed
  qed
qed

lemma split_spaces_solid:
  "acc \<noteq> [] \<or> (s \<noteq> [] \<and> \<not> is_space (hd s)) \<Longrightarrow> (s \<noteq> [] \<longrightarrow> \<not> is_space (last s))
     \<Longrightarrow> [] \<notin> set (split_loop re_spaces acc (p, s))"
proof (induction "length s" arbitrary: acc p s rule: less_induct)
  case less
  show ?case
  proof (cases s)
    case Nil
    then show ?thesis using less.prems by (simp add: split_loop_Nil)
  next
    case (Cons x xs)
    show ?thesis
    proof (cases "is_space x")
      case False
      have "[] \<notin> set (split_loop re_spaces (acc @ [x]) (Some x, xs))"
        using less.prems(2) by (intro less.hyps) (auto simp: Cons)
      then show ?thesis
        using False by (simp add: Cons split_spaces_plain)
    next
      case True
      let ?d = "dropWhile is_space xs"
      obtain q where q: "split_loop re_spaces acc (p, x # xs) = acc # split_loop re_spaces [] (q, ?d)"
        using split_spaces_space [OF True] by blast
      have acc: "acc \<noteq> []" using less.prems(1) True by (auto simp: Cons)
      have xs: "xs \<noteq> []" "\<not> is_space (last xs)"
        using less.prems(2) True by (auto simp: Cons split: if_splits)
      have d: "?d \<noteq> []"
        using xs by (metis dropWhile_eq_Nil_conv last_in_set)
      have "[] \<notin> set (split_loop re_spaces [] (q, ?d))"
      proof (rule less.hyps)
        show "length ?d < length s" by (simp add: Cons length_dropWhile_less)
        show "[] \<noteq> [] \<or> (?d \<noteq> [] \<and> \<not> is_space (hd ?d))"
          using d by (simp add: hd_dropWhile)
        show "?d \<noteq> [] \<longrightarrow> \<not> is_space (last ?d)"
          using xs by (simp add: last_dropWhile)
      qed
      then show ?thesis using acc by (simp add: Cons q)
    qed
  qed
qed

lemma split_spaces_trimmed:
  assumes "trim t \<noteq> []"
  shows "split re_spaces (trim t) = tokens t"
proof -
  have "[] \<notin> set (split_loop re_spaces [] (None, trim t))"
    using assms trim_hd [OF assms] trim_last [OF assms] by (intro split_spaces_solid) simp_all
  then have "filter (\<lambda>w. w \<noteq> []) (split_loop re_spaces [] (None, trim t)) = split_loop re_spaces [] (None, trim t)"
    by (metis (mono_tags, lifting) filter_True)
  then show ?thesis
    using assms split_spaces_tokens [of "[]" None "trim t"] tokens_trim [of t]
    by (simp add: split_def tokens_def)
qed

subsection \<open>Splitting on line breaks\<close>

lemma is_space_LF: "is_space 0x0A"
  by (simp add: is_space_def)

lemma is_space_CR: "is_space 0x0D"
  by (simp add: is_space_def)

lemma tokens_append_space: "is_space x \<Longrightarrow> tokens (a @ x # b) = tokens a @ tokens b"
  by (simp add: tokens_def tokens_acc_space)

lemma tokens_space_Cons: "is_space x \<Longrightarrow> tokens (x # b) = tokens b"
  by (simp add: tokens_def)

lemma split_newline_lf:
  "split_loop re_newline acc (p, 0x0A # xs) = acc # split_loop re_newline [] (Some 0x0A, xs)"
  by (subst split_loop.simps) (simp add: exec_newline)

lemma split_newline_crlf:
  "split_loop re_newline acc (p, 0x0D # 0x0A # ys) = acc # split_loop re_newline [] (Some 0x0A, ys)"
  by (subst split_loop.simps) (simp add: exec_newline)

lemma split_newline_other:
  "exec re_newline (p, x # xs) = None
     \<Longrightarrow> split_loop re_newline acc (p, x # xs) = split_loop re_newline (acc @ [x]) (Some x, xs)"
  by (subst split_loop.simps) simp

lemma split_newline_tokens:
  "concat (map tokens (split_loop re_newline acc (p, s))) = tokens (acc @ s)"
proof (induction "length s" arbitrary: acc p s rule: less_induct)
  case less
  show ?case
  proof (cases s)
    case Nil
    then show ?thesis by (simp add: split_loop_Nil)
  next
    case (Cons x xs)
    show ?thesis
    proof (cases "x = 0x0A")
      case True
      then have "split_loop re_newline acc (p, s) = acc # split_loop re_newline [] (Some 0x0A, xs)"
        by (simp add: Cons split_newline_lf)
      then show ?thesis
        using less [of xs "[]" "Some 0x0A"] True
        by (simp add: Cons tokens_append_space [OF is_space_LF])
    next
      case nlf: False
      show ?thesis
      proof (cases "x = 0x0D \<and> (\<exists>ys. xs = 0x0A # ys)")
        case True
        then obtain ys where crlf: "x = 0x0D" "xs = 0x0A # ys" by blast
        then have "split_loop re_newline acc (p, s) = acc # split_loop re_newline [] (Some 0x0A, ys)"
          by (simp add: Cons split_newline_crlf)
        then show ?thesis
          using less [of ys "[]" "Some 0x0A"] crlf
          by (simp add: Cons tokens_append_space [OF is_space_CR] tokens_space_Cons [OF is_space_LF])
      next
        case False
        then have "exec re_newline (p, x # xs) = None"
          using nlf by (auto simp: exec_newline split: list.splits)
        then have "split_loop re_newline acc (p, s) = split_loop re_newline (acc @ [x]) (Some x, xs)"
          by (simp add: Cons split_newline_other)
        then show ?thesis
          using less [of xs "acc @ [x]" "Some x"] by (simp add: Cons)
      qed
    qed
  qed
qed

lemma split_newline_single:
  "0x0A \<notin> set s \<Longrightarrow> split_loop re_newline acc (p, s) = [acc @ s]"
proof (induction s arbitrary: acc p)
  case Nil
  then show ?case by (simp add: split_loop_Nil)
next
  case (Cons x xs)
  have "exec re_newline (p, x # xs) = None"
    using Cons.prems by (auto simp: exec_newline split: list.splits)
  then show ?case
    using Cons by (simp add: split_newline_other)
qed

subsection \<open>wrapText by paragraphs and words\<close>

lemma tokens_Nil: "tokens [] = []"
  by (simp add: tokens_def)

lemma pack_Nil: "pack width [] = []"
  by (simp add: pack_def finish_def)

lemma wrap_para_tokens:
  "trim t \<noteq> [] \<Longrightarrow> wrap_para width ind (trim t) = map (\<lambda>l. ind @ l) (pack width (tokens t))"
  by (simp add: wrap_para_def Let_def split_spaces_trimmed pack_def finish_def)

lemma wrap_paras:
  "concat (map (wrap_para width ind) (filter (\<lambda>para. para \<noteq> []) (map trim ps)))
     = concat (map (\<lambda>para. map (\<lambda>l. ind @ l) (pack width (tokens para))) ps)"
proof (induction ps)
  case Nil
  then show ?case by simp
next
  case (Cons a ps)
  show ?case
  proof (cases "trim a = []")
    case True
    then have "tokens a = []"
      using tokens_trim [of a] by (simp add: tokens_Nil)
    then show ?thesis using True Cons by (simp add: pack_Nil)
  next
    case False
    then show ?thesis using Cons by (simp add: wrap_para_tokens)
  qed
qed

lemma wrapText_paras:
  "text \<noteq> [] \<Longrightarrow> wrapText text width indent
     = concat (map (\<lambda>para. map (\<lambda>l. repeat [0x20] indent @ l) (pack width (tokens para)))
         (split re_newline text))"
  by (simp add: wrapText_def Let_def wrap_paras)

lemma tokens_paras: "text \<noteq> [] \<Longrightarrow> concat (map tokens (split re_newline text)) = tokens text"
  using split_newline_tokens [of "[]" None "text"] by (simp add: split_def)

text \<open>
  The words that \<open>wrapText\<close> packs, paragraph after paragraph, are the words of the text.
\<close>

lemma wrapText_words:
  assumes "text \<noteq> []"
  shows "concat (map (split re_spaces)
           (filter (\<lambda>para. para \<noteq> []) (map trim (split re_newline text)))) = tokens text"
proof -
  have "concat (map (split re_spaces) (filter (\<lambda>para. para \<noteq> []) (map trim ps)))
          = concat (map tokens ps)" for ps
  proof (induction ps)
    case Nil
    then show ?case by simp
  next
    case (Cons a ps)
    show ?case
    proof (cases "trim a = []")
      case True
      then have "tokens a = []"
        using tokens_trim [of a] by (simp add: tokens_Nil)
      then show ?thesis using True Cons by simp
    next
      case False
      then show ?thesis using Cons by (simp add: split_spaces_trimmed)
    qed
  qed
  then show ?thesis
    using tokens_paras [OF assms] by simp
qed

lemma tokens_acc_solid:
  "\<forall>c\<in>set cur. \<not> is_space c \<Longrightarrow> \<forall>w\<in>set (tokens_acc cur s). solid w"
proof (induction s arbitrary: cur)
  case Nil
  then show ?case by (simp add: solid_def)
next
  case (Cons x s)
  show ?case
  proof (cases "is_space x")
    case True
    have "\<forall>w\<in>set (tokens_acc [] s). solid w"
      by (rule Cons.IH) simp
    then show ?thesis
      using True Cons.prems by (simp add: solid_def)
  next
    case False
    have "\<forall>w\<in>set (tokens_acc (cur @ [x]) s). solid w"
      using False Cons.prems by (intro Cons.IH) simp
    then show ?thesis using False by simp
  qed
qed

lemma tokens_solid: "w \<in> set (tokens s) \<Longrightarrow> solid w"
  using tokens_acc_solid [of "[]" s] by (simp add: tokens_def)

lemma para_tokens_subset:
  assumes "text \<noteq> []" "para \<in> set (split re_newline text)"
  shows "set (tokens para) \<subseteq> set (tokens text)"
proof -
  have "set (tokens text) = (\<Union>q\<in>set (split re_newline text). set (tokens q))"
    using tokens_paras [OF assms(1)] by (metis set_concat set_map image_image)
  then show ?thesis using assms(2) by blast
qed

lemma wrapText_line_cases:
  assumes "line \<in> set (wrapText text width indent)"
  obtains para l where "text \<noteq> []" "para \<in> set (split re_newline text)"
    "l \<in> set (pack width (tokens para))" "line = repeat [0x20] indent @ l"
proof -
  have ne: "text \<noteq> []" using assms by (auto simp: wrapText_def)
  show thesis
    using assms that ne unfolding wrapText_paras [OF ne] by auto
qed

subsection \<open>Lines within the width\<close>

lemma wrap_word_fits:
  assumes "\<forall>l\<in>set (fst st). int (length l) \<le> width" "int (length (snd st)) \<le> width"
    "int (length word) \<le> width"
  shows "(\<forall>l\<in>set (fst (wrap_word width st word)). int (length l) \<le> width)
       \<and> int (length (snd (wrap_word width st word))) \<le> width"
  using assms by (auto simp: wrap_word_def Let_def)

lemma foldl_wrap_fits:
  "\<forall>l\<in>set (fst st). int (length l) \<le> width \<Longrightarrow> int (length (snd st)) \<le> width
     \<Longrightarrow> \<forall>w\<in>set ws. int (length w) \<le> width
     \<Longrightarrow> (\<forall>l\<in>set (fst (foldl (wrap_word width) st ws)). int (length l) \<le> width)
       \<and> int (length (snd (foldl (wrap_word width) st ws))) \<le> width"
proof (induction ws arbitrary: st)
  case Nil
  then show ?case by simp
next
  case (Cons w ws)
  have "(\<forall>l\<in>set (fst (wrap_word width st w)). int (length l) \<le> width)
       \<and> int (length (snd (wrap_word width st w))) \<le> width"
    using Cons.prems by (intro wrap_word_fits) simp_all
  then show ?case
    using Cons.IH [of "wrap_word width st w"] Cons.prems(3) by simp
qed

lemma pack_fits:
  assumes "0 \<le> width" "\<forall>w\<in>set ws. int (length w) \<le> width" "l \<in> set (pack width ws)"
  shows "int (length l) \<le> width"
  using foldl_wrap_fits [of "([], [])" width ws] assms
  by (auto simp: pack_def finish_def split: if_splits)

subsection \<open>Long words\<close>

lemma foldl_wrap_keeps_lines:
  "l \<in> set (fst st) \<Longrightarrow> l \<in> set (fst (foldl (wrap_word width) st ws))"
  by (induction ws arbitrary: st) (auto simp: wrap_word_def Let_def)

lemma foldl_wrap_long_current:
  "width < int (length (snd st)) \<Longrightarrow> snd st \<noteq> []
     \<Longrightarrow> snd st \<in> set (finish (foldl (wrap_word width) st ws))"
proof (induction ws arbitrary: st)
  case Nil
  then show ?case by (simp add: finish_def)
next
  case (Cons w ws)
  have "wrap_word width st w = (fst st @ [snd st], w)"
    using Cons.prems by (simp add: wrap_word_def Let_def)
  moreover have "snd st \<in> set (fst (foldl (wrap_word width) (fst st @ [snd st], w) ws))"
    by (rule foldl_wrap_keeps_lines) simp
  ultimately show ?case
    by (simp add: finish_def)
qed

lemma foldl_wrap_long_word:
  "w \<in> set ws \<Longrightarrow> width < int (length w) \<Longrightarrow> w \<noteq> []
     \<Longrightarrow> w \<in> set (finish (foldl (wrap_word width) st ws))"
proof (induction ws arbitrary: st)
  case Nil
  then show ?case by simp
next
  case (Cons x ws)
  show ?case
  proof (cases "w = x")
    case True
    have "snd (wrap_word width st w) = w"
      using Cons.prems(2) by (simp add: wrap_word_def Let_def)
    then show ?thesis
      using foldl_wrap_long_current [of width "wrap_word width st w" ws] Cons.prems True by simp
  next
    case False
    then show ?thesis using Cons by simp
  qed
qed

subsection \<open>Single-spaced lines\<close>

lemma is_space_SP: "is_space 0x20"
  by (simp add: is_space_def)

lemma solid_single_spaced: "solid w \<Longrightarrow> single_spaced w"
  by (induction w rule: single_spaced.induct) (auto simp: solid_def)

lemma single_spaced_append:
  "single_spaced cur \<Longrightarrow> solid w \<Longrightarrow> single_spaced (cur @ 0x20 # w)"
  by (induction cur rule: single_spaced.induct)
     (auto simp: is_space_SP solid_single_spaced split: if_splits)

lemma wrap_word_tidy: "tidy st \<Longrightarrow> solid w \<Longrightarrow> tidy (wrap_word width st w)"
  by (auto simp: tidy_def wrap_word_def Let_def single_spaced_append solid_single_spaced)

lemma foldl_wrap_tidy:
  "tidy st \<Longrightarrow> \<forall>w\<in>set ws. solid w \<Longrightarrow> tidy (foldl (wrap_word width) st ws)"
  by (induction ws arbitrary: st) (simp_all add: wrap_word_tidy)

lemma pack_single_spaced:
  assumes "\<forall>w\<in>set ws. solid w" "l \<in> set (pack width ws)"
  shows "single_spaced l"
proof -
  have "tidy (foldl (wrap_word width) ([], []) ws)"
    using assms(1) by (intro foldl_wrap_tidy) (simp_all add: tidy_def)
  then show ?thesis
    using assms(2) by (auto simp: pack_def finish_def tidy_def split: if_splits)
qed

subsection \<open>Short paragraphs\<close>

lemma join_Cons: "ws \<noteq> [] \<Longrightarrow> join sep (a # ws) = a @ sep @ join sep ws"
  by (cases ws) simp_all

lemma join_merge: "join sep ((a @ sep @ b) # ws) = join sep (a # b # ws)"
  by (cases ws) simp_all

lemma length_join_Cons: "length a \<le> length (join sep (a # ws))"
  by (cases ws) simp_all

lemma foldl_wrap_one_line:
  "cur \<noteq> [] \<Longrightarrow> int (length (join [0x20] (cur # ws))) \<le> width
     \<Longrightarrow> foldl (wrap_word width) ([], cur) ws = ([], join [0x20] (cur # ws))"
proof (induction ws arbitrary: cur)
  case Nil
  then show ?case by simp
next
  case (Cons x ws)
  have "length (cur @ [0x20] @ x) \<le> length (join [0x20] ((cur @ [0x20] @ x) # ws))"
    by (rule length_join_Cons)
  then have fit: "int (length (cur @ [0x20] @ x)) \<le> width"
    using Cons.prems(2) unfolding join_merge by linarith
  then have "wrap_word width ([], cur) x = ([], cur @ [0x20] @ x)"
    using Cons.prems(1) by (simp add: wrap_word_def Let_def)
  moreover have "foldl (wrap_word width) ([], cur @ [0x20] @ x) ws
        = ([], join [0x20] ((cur @ [0x20] @ x) # ws))"
    using Cons.prems(2) unfolding join_merge [symmetric] by (intro Cons.IH) simp_all
  ultimately show ?case
    using join_merge [of "[0x20]" cur x ws] by (simp del: join.simps)
qed

lemma pack_one_line:
  assumes "ws \<noteq> []" "hd ws \<noteq> []" "int (length (join [0x20] ws)) \<le> width"
  shows "pack width ws = [join [0x20] ws]"
proof -
  obtain x xs where ws: "ws = x # xs" using assms(1) by (cases ws) auto
  have x: "x \<noteq> []" using assms(2) ws by simp
  have "int (length x) \<le> width"
    using length_join_Cons [of x "[0x20]" xs] assms(3) unfolding ws by linarith
  then have "wrap_word width ([], []) x = ([], x)"
    by (simp add: wrap_word_def Let_def)
  then have "foldl (wrap_word width) ([], []) ws = ([], join [0x20] ws)"
    using foldl_wrap_one_line [OF x, of xs width] assms(3) ws by simp
  moreover have "join [0x20] ws \<noteq> []"
    using x ws by (cases xs) simp_all
  ultimately show ?thesis
    by (simp add: pack_def finish_def)
qed

lemma length_join_le: "length (join sep (a # ws)) \<le> length a + length sep + length (join sep ws)"
  by (cases ws) simp_all

lemma length_join_tokens: "length (join [0x20] (tokens_acc cur s)) \<le> length cur + length s"
proof (induction s arbitrary: cur)
  case Nil
  then show ?case by simp
next
  case (Cons x s)
  show ?case
  proof (cases "is_space x")
    case True
    have "length (join [0x20] (cur # tokens_acc [] s)) \<le> length cur + 1 + length (join [0x20] (tokens_acc [] s))"
      using length_join_le [of "[0x20]" cur "tokens_acc [] s"] by simp
    then show ?thesis
      using True Cons [of "[]"] by simp
  next
    case False
    then show ?thesis using Cons [of "cur @ [x]"] by simp
  qed
qed

lemma tokens_acc_nonempty: "cur \<noteq> [] \<Longrightarrow> tokens_acc cur s \<noteq> []"
  by (induction s arbitrary: cur) simp_all

lemma join_tokens_single_spaced:
  "single_spaced b \<Longrightarrow> join [0x20] (tokens_acc cur b) = cur @ b"
proof (induction b arbitrary: cur rule: single_spaced.induct)
  case 1
  then show ?case by simp
next
  case (2 c)
  then show ?case by simp
next
  case (3 c d cs)
  show ?case
  proof (cases "is_space d")
    case True
    then have d: "d = 0x20" and cs: "single_spaced cs" and c: "\<not> is_space c"
      using "3.prems" by simp_all
    have j: "join [0x20] (tokens_acc [] cs) = cs"
      using "3.IH"(1) [OF True cs, of "[]"] by simp
    have "cs \<noteq> []" using cs by auto
    then have "tokens_acc [] cs \<noteq> []" using j by auto
    then show ?thesis
      using True c d j by (simp add: join_Cons)
  next
    case False
    then have "single_spaced (d # cs)" and c: "\<not> is_space c"
      using "3.prems" by simp_all
    then show ?thesis
      using "3.IH"(2) [OF False, of "cur @ [c]"] c by simp
  qed
qed

lemma trim_Nil: "trim [] = []"
  by (simp add: trim_def)

section \<open>Escape sequences of the colour helpers\<close>

lemma ms_Seq: "ms (Seq a b) c = concat (map (ms b) (ms a c))"
  by simp

lemma ms_Rep: "ms (Rep m mx r) c = rep_ms (ms r) m mx c"
  by simp

lemma rep_ms_stop: "f c = [] \<Longrightarrow> rep_ms f 0 mx c = [c]"
  by (subst rep_ms.simps(2)) simp

lemma rep_ms_more:
  "f c \<noteq> [] \<Longrightarrow> rep_ms f 0 mx c =
     (if mx = Some 0 then [c]
      else concat (map (rep_ms f 0 (dec mx)) (filter (\<lambda>d. length (snd d) < length (snd c)) (f c))) @ [c])"
  by (subst rep_ms.simps(2)) simp

lemma rep_ms_must: "rep_ms f (Suc m) mx c = concat (map (rep_ms f m (dec mx)) (f c))"
  by (subst rep_ms.simps(1)) simp

lemma dec_simps: "dec None = None" "dec (Some n) = Some (n - 1)"
  by (simp_all add: dec_def)

lemmas ansi_eval = exec_def re_ansi_def ms_Seq ms_Rep ms_Cls_Cons ms_Cls_Nil rep_ms_stop rep_ms_more
  rep_ms_must dec_simps ansi_intro_def ansi_prefix_def digit_def ansi_final_def

lemma exec_sgr_36: "exec re_ansi (p, 0x1B # 0x5B # 0x33 # 0x36 # 0x6D # rest) = Some (Some 0x6D, rest)"
  by (simp add: ansi_eval del: ms.simps)

lemma exec_sgr_1: "exec re_ansi (p, 0x1B # 0x5B # 0x31 # 0x6D # rest) = Some (Some 0x6D, rest)"
  by (simp add: ansi_eval del: ms.simps)

lemma exec_sgr_35: "exec re_ansi (p, 0x1B # 0x5B # 0x33 # 0x35 # 0x6D # rest) = Some (Some 0x6D, rest)"
  by (simp add: ansi_eval del: ms.simps)

lemma exec_sgr_33: "exec re_ansi (p, 0x1B # 0x5B # 0x33 # 0x33 # 0x6D # rest) = Some (Some 0x6D, rest)"
  by (simp add: ansi_eval del: ms.simps)

lemma exec_sgr_2: "exec re_ansi (p, 0x1B # 0x5B # 0x32 # 0x6D # rest) = Some (Some 0x6D, rest)"
  by (simp add: ansi_eval del: ms.simps)

lemma exec_sgr_0: "exec re_ansi (p, 0x1B # 0x5B # 0x30 # 0x6D # rest) = Some (Some 0x6D, rest)"
  by (simp add: ansi_eval del: ms.simps)

lemma replace_ansi_match:
  "exec re_ansi (p, s) = Some (q, t) \<Longrightarrow> length t < length s
     \<Longrightarrow> replace re_ansi [] (p, s) = replace re_ansi [] (None, t)"
  using replace_ansi_prev [of "[]" q t None] by (subst replace.simps) simp

lemma strip_paint: "stripAnsi (paint c t @ rest) = stripAnsi (t @ 0x1B # 0x5B # 0x30 # 0x6D # rest)"
  by (cases c)
     (simp_all add: stripAnsi_def cyan_def magenta_def yellow_def bold_def dim_def sgr_def js_def
        replace_ansi_match [OF exec_sgr_36] replace_ansi_match [OF exec_sgr_35]
        replace_ansi_match [OF exec_sgr_33] replace_ansi_match [OF exec_sgr_1]
        replace_ansi_match [OF exec_sgr_2])

lemma strip_reset: "stripAnsi (0x1B # 0x5B # 0x30 # 0x6D # rest) = stripAnsi rest"
  by (simp add: stripAnsi_def replace_ansi_match [OF exec_sgr_0])

lemma strip_plain_append:
  "\<forall>c\<in>set t. \<not> ansi_intro c \<Longrightarrow> stripAnsi (t @ rest) = t @ stripAnsi rest"
proof (induction t)
  case Nil
  then show ?case by simp
next
  case (Cons x t)
  have "replace re_ansi [] (None, x # t @ rest) = x # replace re_ansi [] (Some x, t @ rest)"
    using Cons.prems by (subst replace.simps) (simp add: exec_ansi_plain)
  then show ?case
    using Cons replace_ansi_prev [of "[]" "Some x" "t @ rest" None]
    by (simp add: stripAnsi_def)
qed

lemma strip_printed:
  "escape_free d \<Longrightarrow> stripAnsi (printed d @ rest) = text_of d @ stripAnsi rest"
proof (induction d arbitrary: rest)
  case (Plain t)
  then show ?case by (simp add: strip_plain_append)
next
  case (Styled c d)
  then show ?case by (simp add: strip_paint strip_reset)
next
  case (Cat d e)
  then show ?case by simp
qed

lemma escape_free_text: "escape_free d \<Longrightarrow> \<forall>c\<in>set (text_of d). \<not> ansi_intro c"
  by (induction d) auto

lemma rep_ms_suffix:
  "(\<And>c d. d \<in> set (f c) \<Longrightarrow> \<exists>ys. snd c = ys @ snd d)
     \<Longrightarrow> d \<in> set (rep_ms f m mx c) \<Longrightarrow> \<exists>ys. snd c = ys @ snd d"
proof (induction f m mx c arbitrary: d rule: rep_ms.induct)
  case (1 f m mx c)
  from "1.prems"(2) obtain e where e: "e \<in> set (f c)" and d: "d \<in> set (rep_ms f m (dec mx) e)"
    unfolding rep_ms.simps(1) [of f m mx c] by auto
  obtain ys where "snd e = ys @ snd d"
    using "1.IH" [OF e "1.prems"(1) d] by blast
  moreover obtain zs where "snd c = zs @ snd e"
    using "1.prems"(1) [OF e] by blast
  ultimately show ?case by simp
next
  case (2 f mx c)
  show ?case
  proof (cases "mx = Some 0")
    case True
    then show ?thesis using "2.prems"(2) unfolding rep_ms.simps(2) [of f mx c] by simp
  next
    case False
    let ?P = "\<lambda>d. length (snd d) < length (snd c)"
    from "2.prems"(2) False consider "d = c"
      | e where "e \<in> set (filter ?P (f c))" "d \<in> set (rep_ms f 0 (dec mx) e)"
      unfolding rep_ms.simps(2) [of f mx c] by auto
    then show ?thesis
    proof cases
      case 1
      then show ?thesis by simp
    next
      case (2 e)
      obtain ys where "snd e = ys @ snd d"
        using "2.IH" [OF False 2(1) "2.prems"(1) 2(2)] by blast
      moreover obtain zs where "snd c = zs @ snd e"
        using "2.prems"(1) [of e c] 2(1) by auto
      ultimately show ?thesis by simp
    qed
  qed
qed

lemma ms_suffix: "d \<in> set (ms r c) \<Longrightarrow> \<exists>ys. snd c = ys @ snd d"
proof (induction r arbitrary: c d)
  case (Cls P)
  then show ?case by (cases c) (auto split: list.splits if_splits)
next
  case Bol
  then show ?case by (cases c) (auto split: option.splits if_splits)
next
  case (Seq a b)
  from Seq.prems obtain e where e: "e \<in> set (ms a c)" and d: "d \<in> set (ms b e)"
    by auto
  obtain ys where "snd c = ys @ snd e" using Seq.IH(1) [OF e] by blast
  moreover obtain zs where "snd e = zs @ snd d" using Seq.IH(2) [OF d] by blast
  ultimately show ?case by simp
next
  case (Rep m mx r)
  then show ?case
    using rep_ms_suffix [of "ms r" d m mx c] by simp
qed

lemma exec_suffix: "exec r (p, s) = Some (q, t) \<Longrightarrow> \<exists>ys. s = ys @ t"
  using ms_suffix [of "(q, t)" r "(p, s)"] by (auto simp: exec_def split: list.splits)

lemma well_escaped_right: "well_escaped (a @ b) \<Longrightarrow> well_escaped b"
  by (induction a) simp_all

lemma strip_well_escaped:
  "well_escaped s \<Longrightarrow> \<forall>c\<in>set (replace re_ansi [] (p, s)). \<not> ansi_intro c"
proof (induction "length s" arbitrary: p s rule: less_induct)
  case less
  show ?case
  proof (cases s)
    case Nil
    then show ?thesis by (subst replace.simps) (simp add: exec_ansi_Nil)
  next
    case (Cons x xs)
    have xs: "well_escaped xs" using less.prems Cons by simp
    show ?thesis
    proof (cases "exec re_ansi (p, x # xs)")
      case None
      then have "exec re_ansi (None, x # xs) = None"
        using exec_ansi_prev by blast
      then have "\<not> ansi_intro x"
        using less.prems Cons by auto
      moreover have "replace re_ansi [] (p, x # xs) = x # replace re_ansi [] (Some x, xs)"
        using None by (subst replace.simps) simp
      ultimately show ?thesis
        using less.hyps [of xs "Some x"] xs by (simp add: Cons)
    next
      case (Some c)
      obtain q t where c: "c = (q, t)" by (cases c)
      obtain ys where ys: "x # xs = ys @ t"
        using Some c exec_suffix by blast
      have t: "well_escaped t"
        using less.prems well_escaped_right [of ys t] by (simp add: Cons ys)
      have short: "length t < length (x # xs)"
        using Some c exec_ansi_shrinks by blast
      then have "replace re_ansi [] (p, x # xs) = replace re_ansi [] (q, t)"
        using Some c by (subst replace.simps) simp
      then show ?thesis
        using less.hyps [of t q] t short by (simp add: Cons)
    qed
  qed
qed

section \<open>The steps of clean\<close>

lemma exec_bold:
  "exec re_bold (p, s) =
     (case s of
        a # b # t \<Rightarrow> if a = 0x2A \<and> b = 0x2A then Some (Some 0x2A, t) else None
      | _ \<Rightarrow> None)"
  by (simp add: exec_def re_bold_def split: list.splits)

lemma replace_bold_Nil: "replace re_bold [] (p, []) = []"
  by (subst replace.simps) (simp add: exec_bold)

lemma replace_bold_single: "replace re_bold [] (p, [v]) = [v]"
  by (subst replace.simps) (simp add: exec_bold replace_bold_Nil)

lemma replace_bold: "replace re_bold [] (p, s) = remove_bold s"
proof (induction s arbitrary: p rule: remove_bold.induct)
  case (1 a b s)
  show ?case
  proof (cases "a = 0x2A \<and> b = 0x2A")
    case True
    then show ?thesis
      using "1.IH"(1) [OF True, of "Some 0x2A"]
      by (subst replace.simps) (simp add: exec_bold)
  next
    case False
    then show ?thesis
      using "1.IH"(2) [OF False, of "Some a"]
      by (subst replace.simps) (auto simp: exec_bold)
  qed
qed (simp_all add: replace_bold_Nil replace_bold_single)

lemma ms_Seq_Bol: "ms (Seq Bol r) (p, s) = (if at_line_start p then ms r (p, s) else [])"
  by (simp add: at_line_start_def split: option.splits)

lemma exec_quote:
  "exec re_quote (p, s) =
     (case s of
        [] \<Rightarrow> None
      | x # xs \<Rightarrow>
          if at_line_start p \<and> x = 0x3E
          then (case xs of
                  [] \<Rightarrow> Some (Some 0x3E, [])
                | y # ys \<Rightarrow> if is_space y then Some (Some y, ys) else Some (Some 0x3E, xs))
          else None)"
proof (cases s)
  case Nil
  show ?thesis
    unfolding exec_def re_quote_def Nil ms_Seq_Bol ms_Seq_Cls_Nil by simp
next
  case (Cons x xs)
  show ?thesis
  proof (cases xs)
    case Nil
    show ?thesis
      unfolding exec_def re_quote_def Cons Nil ms_Seq_Bol ms_Seq_Cls_Cons ms_opt_cls_Nil by simp
  next
    case ys: (Cons y ys)
    show ?thesis
      unfolding exec_def re_quote_def Cons ys ms_Seq_Bol ms_Seq_Cls_Cons ms_opt_cls_Cons by simp
  qed
qed

lemma at_line_start_Some: "at_line_start (Some c) = is_line_terminator c"
  by (simp add: at_line_start_def)

lemma replace_quote: "replace re_quote [] (p, s) = strip_quotes (at_line_start p) s"
proof (induction "length s" arbitrary: p s rule: less_induct)
  case less
  show ?case
  proof (cases s)
    case Nil
    then show ?thesis by (subst replace.simps) (simp add: exec_quote)
  next
    case (Cons x xs)
    show ?thesis
    proof (cases "at_line_start p \<and> x = 0x3E")
      case False
      then have "replace re_quote [] (p, x # xs) = x # replace re_quote [] (Some x, xs)"
        by (subst replace.simps) (auto simp: exec_quote)
      then show ?thesis
        using False less [of xs "Some x"] by (auto simp: Cons at_line_start_Some)
    next
      case True
      show ?thesis
      proof (cases xs)
        case Nil
        have "replace re_quote [] (p, [x]) = replace re_quote [] (Some 0x3E, [])"
          using True by (subst replace.simps) (simp add: exec_quote)
        also have "\<dots> = []"
          by (subst replace.simps) (simp add: exec_quote)
        finally show ?thesis using True by (simp add: Cons Nil)
      next
        case ys: (Cons y ys)
        show ?thesis
        proof (cases "is_space y")
          case sp: True
          have "replace re_quote [] (p, x # y # ys) = replace re_quote [] (Some y, ys)"
            using True sp by (subst replace.simps) (simp add: exec_quote)
          then show ?thesis
            using True sp less [of ys "Some y"] by (simp add: Cons ys at_line_start_Some)
        next
          case nsp: False
          have "replace re_quote [] (p, x # y # ys) = replace re_quote [] (Some 0x3E, y # ys)"
            using True nsp by (subst replace.simps) (simp add: exec_quote)
          moreover have "\<not> at_line_start (Some 0x3E)"
            by (simp add: at_line_start_def is_line_terminator_def)
          ultimately show ?thesis
            using True nsp less [of "y # ys" "Some 0x3E"] by (simp add: Cons ys)
        qed
      qed
    qed
  qed
qed

lemma ms_Seq_opt_Nil: "ms (Seq (Rep 0 (Some 1) (Cls P)) r) (p, []) = ms r (p, [])"
  unfolding ms.simps(3) ms_opt_cls_Nil by simp

lemma ms_Seq_opt_Cons:
  "ms (Seq (Rep 0 (Some 1) (Cls P)) r) (p, x # xs) =
     (if P x then ms r (Some x, xs) @ ms r (p, x # xs) else ms r (p, x # xs))"
  unfolding ms.simps(3) ms_opt_cls_Cons by simp

lemma exec_newline_ws_Nil: "exec re_newline_ws (p, []) = None"
  unfolding exec_def re_newline_ws_def ms_Seq_opt_Nil ms_Seq_Cls_Nil by simp

lemma ms_newline_ws_Cons:
  "ms re_newline_ws (p, x # xs) =
     (if x = 0x0D
      then (case xs of [] \<Rightarrow> []
            | y # ys \<Rightarrow> if y = 0x0A then rep_ms (ms (Cls is_space)) 0 None (Some y, ys) else [])
      else if x = 0x0A then rep_ms (ms (Cls is_space)) 0 None (Some x, xs) else [])"
proof (cases xs)
  case Nil
  show ?thesis
    unfolding re_newline_ws_def Nil ms_Seq_opt_Cons ms_Seq_Cls_Cons ms_Seq_Cls_Nil ms.simps(4)
    by simp
next
  case (Cons y ys)
  show ?thesis
    unfolding re_newline_ws_def Cons ms_Seq_opt_Cons ms_Seq_Cls_Cons ms.simps(4)
    by simp
qed

lemma exec_newline_ws_lf: "\<exists>q. exec re_newline_ws (p, 0x0A # xs) = Some (q, dropWhile is_space xs)"
proof -
  obtain q rest where "rep_ms (ms (Cls is_space)) 0 None (Some 0x0A, xs) = (q, dropWhile is_space xs) # rest"
    using ms_star_cls_head by blast
  then show ?thesis
    unfolding exec_def ms_newline_ws_Cons by simp
qed

lemma exec_newline_ws_crlf:
  "\<exists>q. exec re_newline_ws (p, 0x0D # 0x0A # ys) = Some (q, dropWhile is_space ys)"
proof -
  obtain q rest where "rep_ms (ms (Cls is_space)) 0 None (Some 0x0A, ys) = (q, dropWhile is_space ys) # rest"
    using ms_star_cls_head by blast
  then show ?thesis
    unfolding exec_def ms_newline_ws_Cons by simp
qed

lemma exec_newline_ws_other:
  "x \<noteq> 0x0A \<Longrightarrow> \<not> (x = 0x0D \<and> xs \<noteq> [] \<and> hd xs = 0x0A) \<Longrightarrow> exec re_newline_ws (p, x # xs) = None"
  unfolding exec_def ms_newline_ws_Cons by (cases xs) auto

lemma replace_newline_ws: "replace re_newline_ws [0x0A] (p, s) = collapse_breaks s"
proof (induction "length s" arbitrary: p s rule: less_induct)
  case less
  show ?case
  proof (cases s)
    case Nil
    then show ?thesis by (subst replace.simps) (simp add: exec_newline_ws_Nil)
  next
    case (Cons x xs)
    show ?thesis
    proof (cases "x = 0x0A")
      case True
      obtain q where "exec re_newline_ws (p, 0x0A # xs) = Some (q, dropWhile is_space xs)"
        using exec_newline_ws_lf by blast
      then have "replace re_newline_ws [0x0A] (p, 0x0A # xs)
          = 0x0A # replace re_newline_ws [0x0A] (q, dropWhile is_space xs)"
        by (subst replace.simps) (simp add: length_dropWhile_less)
      then show ?thesis
        using True less [of "dropWhile is_space xs" q]
        by (simp add: Cons length_dropWhile_less)
    next
      case nlf: False
      show ?thesis
      proof (cases "x = 0x0D \<and> xs \<noteq> [] \<and> hd xs = 0x0A")
        case True
        then obtain ys where xs: "xs = 0x0A # ys" by (cases xs) auto
        obtain q where "exec re_newline_ws (p, 0x0D # 0x0A # ys) = Some (q, dropWhile is_space ys)"
          using exec_newline_ws_crlf by blast
        moreover have short: "length (dropWhile is_space ys) < length (0x0D # 0x0A # ys)"
          using length_dropWhile_le [of is_space ys] by simp
        ultimately have "replace re_newline_ws [0x0A] (p, 0x0D # 0x0A # ys)
            = 0x0A # replace re_newline_ws [0x0A] (q, dropWhile is_space ys)"
          by (subst replace.simps) (simp only: option.case prod.case if_True append.simps)
        moreover have "length (dropWhile is_space ys) < length s"
          using short by (simp add: Cons xs)
        ultimately show ?thesis
          using True less [of "dropWhile is_space ys" q] by (simp add: Cons xs)
      next
        case False
        then have "replace re_newline_ws [0x0A] (p, x # xs) = x # replace re_newline_ws [0x0A] (Some x, xs)"
          using nlf by (subst replace.simps) (simp add: exec_newline_ws_other)
        then show ?thesis
          using False nlf less [of xs "Some x"] by (simp add: Cons)
      qed
    qed
  qed
qed

lemma clean_refines: "clean text = clean_spec text"
  by (cases "text")
     (simp_all add: clean_def clean_spec_def replace_bold replace_quote replace_newline_ws
        at_line_start_def trim_def)

lemma trim_infix: "\<exists>pre post. s = pre @ trim s @ post"
proof -
  let ?d = "dropWhile is_space s"
  have "rev ?d = takeWhile is_space (rev ?d) @ dropWhile is_space (rev ?d)"
    by simp
  then have "?d = trim s @ rev (takeWhile is_space (rev ?d))"
    by (metis rev_append rev_rev_ident trim_def)
  moreover have "s = takeWhile is_space s @ ?d"
    by simp
  ultimately show ?thesis by metis
qed

lemma clean_trimmed:
  "clean text = [] \<or> (\<not> is_space (hd (clean text)) \<and> \<not> is_space (last (clean text)))"
proof (cases "text")
  case None
  then show ?thesis by (simp add: clean_def)
next
  case (Some t)
  show ?thesis
  proof (cases "t = []")
    case True
    then show ?thesis by (simp add: clean_def Some)
  next
    case False
    then obtain u where "clean text = trim u"
      by (simp add: clean_def Some)
    then show ?thesis
      using trim_hd [of u] trim_last [of u] by auto
  qed
qed

lemma breaks_collapsed_Cons:
  "breaks_collapsed (a # r)
     = ((a = 0x0A \<longrightarrow> r = [] \<or> \<not> is_space (hd r)) \<and> breaks_collapsed r)"
  by (cases r) auto

lemma breaks_collapsed_right: "breaks_collapsed (a @ b) \<Longrightarrow> breaks_collapsed b"
  by (induction a) (simp_all add: breaks_collapsed_Cons del: breaks_collapsed.simps)

lemma breaks_collapsed_left: "breaks_collapsed (a @ b) \<Longrightarrow> breaks_collapsed a"
proof (induction a)
  case Nil
  then show ?case by simp
next
  case (Cons x a)
  then show ?case
    by (cases a) (auto simp: breaks_collapsed_Cons simp del: breaks_collapsed.simps)
qed

lemma collapse_breaks_solid: "\<not> is_space x \<Longrightarrow> collapse_breaks (x # s) = x # collapse_breaks s"
  by (auto simp: is_space_def)

lemma collapse_breaks_head:
  "collapse_breaks (dropWhile is_space s) = []
     \<or> \<not> is_space (hd (collapse_breaks (dropWhile is_space s)))"
proof (cases "dropWhile is_space s")
  case Nil
  show ?thesis unfolding Nil by simp
next
  case (Cons y d)
  then have "\<not> is_space y"
    by (metis hd_dropWhile list.sel(1) list.distinct(1))
  then show ?thesis
    by (simp add: Cons collapse_breaks_solid del: collapse_breaks.simps)
qed

lemma breaks_collapsed_collapse: "breaks_collapsed (collapse_breaks s)"
proof (induction s rule: collapse_breaks.induct)
  case 1
  then show ?case by simp
next
  case (2 x s)
  show ?case
  proof (cases "x = 0x0A")
    case True
    then show ?thesis
      using 2(1) collapse_breaks_head [of s]
      by (simp add: breaks_collapsed_Cons del: breaks_collapsed.simps)
  next
    case nlf: False
    show ?thesis
    proof (cases "x = 0x0D \<and> s \<noteq> [] \<and> hd s = 0x0A")
      case True
      then show ?thesis
        using nlf 2(2) collapse_breaks_head [of "tl s"]
        by (simp add: breaks_collapsed_Cons del: breaks_collapsed.simps)
    next
      case False
      then show ?thesis
        using nlf 2(3) by (auto simp: breaks_collapsed_Cons simp del: breaks_collapsed.simps)
    qed
  qed
qed

lemma no_bold_Cons:
  "no_bold (a # r) = ((a = 0x2A \<longrightarrow> r = [] \<or> hd r \<noteq> 0x2A) \<and> no_bold r)"
  by (cases r) auto

lemma no_bold_right: "no_bold (a @ b) \<Longrightarrow> no_bold b"
  by (induction a) (simp_all add: no_bold_Cons del: no_bold.simps)

lemma no_bold_left: "no_bold (a @ b) \<Longrightarrow> no_bold a"
proof (induction a)
  case Nil
  then show ?case by simp
next
  case (Cons x a)
  then show ?case
    by (cases a) (auto simp: no_bold_Cons simp del: no_bold.simps)
qed

lemma no_bold_dropWhile: "no_bold s \<Longrightarrow> no_bold (dropWhile P s)"
  using no_bold_right [of "takeWhile P s" "dropWhile P s"] by simp

lemma remove_bold_solid: "b \<noteq> 0x2A \<Longrightarrow> remove_bold (b # s) = b # remove_bold s"
  by (cases s) simp_all

lemma no_bold_remove: "no_bold (remove_bold s)"
proof (induction s rule: remove_bold.induct)
  case (1 a b s)
  show ?case
  proof (cases "a = 0x2A \<and> b = 0x2A")
    case True
    then show ?thesis using 1(1) [OF True] by simp
  next
    case False
    have "no_bold (remove_bold (b # s))" using 1(2) [OF False] .
    moreover have "a = 0x2A \<longrightarrow> hd (remove_bold (b # s)) \<noteq> 0x2A"
      using False by (auto simp: remove_bold_solid simp del: remove_bold.simps)
    ultimately show ?thesis
      using False by (auto simp: no_bold_Cons simp del: no_bold.simps)
  qed
qed simp_all

lemma not_lt_star: "\<not> is_line_terminator 0x2A"
  by (simp add: is_line_terminator_def)

lemma no_bold_strip_after:
  "no_bold (c # s) \<Longrightarrow> (bol \<longrightarrow> c \<noteq> 0x2A) \<Longrightarrow> no_bold (c # strip_quotes bol s)"
proof (induction bol s arbitrary: c rule: strip_quotes.induct)
  case (1 bol)
  then show ?case by simp
next
  case (2 bol x s)
  show ?case
  proof (cases "bol \<and> x = 0x3E")
    case True
    then have c: "c \<noteq> 0x2A" using "2.prems"(2) by simp
    have s: "no_bold s"
      using "2.prems"(1) no_bold_right [of "[c, x]" s] by simp
    show ?thesis
    proof (cases s)
      case Nil
      then show ?thesis using True by simp
    next
      case (Cons y t)
      show ?thesis
      proof (cases "is_space y")
        case sp: True
        have "no_bold (c # t)"
          using s c by (simp add: Cons no_bold_Cons del: no_bold.simps)
        then have "no_bold (c # strip_quotes (is_line_terminator y) t)"
          using c by (intro "2.IH"(1) [OF True Cons sp]) simp_all
        then show ?thesis using True sp by (simp add: Cons)
      next
        case nsp: False
        have "no_bold (c # s)"
          using s c by (simp add: no_bold_Cons del: no_bold.simps)
        then have "no_bold (c # strip_quotes False s)"
          by (intro "2.IH"(2) [OF True Cons nsp]) simp_all
        then show ?thesis using True nsp by (simp add: Cons)
      qed
    qed
  next
    case False
    have "no_bold (x # s)"
      using "2.prems"(1) no_bold_right [of "[c]" "x # s"] by simp
    then have "no_bold (x # strip_quotes (is_line_terminator x) s)"
      by (intro "2.IH"(3) [OF False]) (auto simp: not_lt_star)
    moreover have "\<not> (c = 0x2A \<and> x = 0x2A)"
      using "2.prems"(1) by simp
    ultimately show ?thesis
      using False by (auto simp: no_bold_Cons simp del: no_bold.simps)
  qed
qed

lemma no_bold_strip: "no_bold s \<Longrightarrow> no_bold (strip_quotes bol s)"
proof -
  assume "no_bold s"
  then have "no_bold (0 # s)"
    by (simp add: no_bold_Cons del: no_bold.simps)
  then have "no_bold (0 # strip_quotes bol s)"
    by (rule no_bold_strip_after) simp
  then show ?thesis
    using no_bold_right [of "[0]"] by simp
qed

lemma no_bold_collapse_after: "no_bold (c # s) \<Longrightarrow> no_bold (c # collapse_breaks s)"
proof (induction s arbitrary: c rule: collapse_breaks.induct)
  case 1
  then show ?case by simp
next
  case (2 x s)
  have s: "no_bold s"
    using "2.prems" no_bold_right [of "[c, x]" s] by simp
  show ?case
  proof (cases "x = 0x0A")
    case True
    have "no_bold (0x0A # dropWhile is_space s)"
      using no_bold_dropWhile [OF s] by (simp add: no_bold_Cons del: no_bold.simps)
    then have "no_bold (0x0A # collapse_breaks (dropWhile is_space s))"
      by (rule "2.IH"(1) [OF True])
    then show ?thesis
      using True by (simp add: no_bold_Cons del: no_bold.simps)
  next
    case nlf: False
    show ?thesis
    proof (cases "x = 0x0D \<and> s \<noteq> [] \<and> hd s = 0x0A")
      case True
      obtain ys where ys: "s = 0x0A # ys"
        using True by (cases s) auto
      have "no_bold (tl s)"
        using s no_bold_right [of "[0x0A]" ys] by (simp add: ys)
      then have "no_bold (0x0A # dropWhile is_space (tl s))"
        using no_bold_dropWhile by (simp add: no_bold_Cons del: no_bold.simps)
      then have "no_bold (0x0A # collapse_breaks (dropWhile is_space (tl s)))"
        by (rule "2.IH"(2) [OF nlf True])
      then show ?thesis
        using True nlf by (simp add: no_bold_Cons del: no_bold.simps)
    next
      case False
      have "no_bold (x # s)"
        using "2.prems" no_bold_right [of "[c]" "x # s"] by simp
      then have "no_bold (x # collapse_breaks s)"
        by (rule "2.IH"(3) [OF nlf False])
      moreover have "\<not> (c = 0x2A \<and> x = 0x2A)"
        using "2.prems" by simp
      ultimately show ?thesis
        using False nlf by (auto simp: no_bold_Cons simp del: no_bold.simps)
    qed
  qed
qed

lemma no_bold_collapse: "no_bold s \<Longrightarrow> no_bold (collapse_breaks s)"
proof -
  assume "no_bold s"
  then have "no_bold (0 # s)"
    by (simp add: no_bold_Cons del: no_bold.simps)
  then have "no_bold (0 # collapse_breaks s)"
    by (rule no_bold_collapse_after)
  then show ?thesis
    using no_bold_right [of "[0]"] by simp
qed

lemma no_bold_trim: "no_bold s \<Longrightarrow> no_bold (trim s)"
proof -
  assume s: "no_bold s"
  obtain pre post where "s = pre @ trim s @ post"
    using trim_infix by blast
  then have "no_bold (pre @ trim s @ post)" using s by simp
  then have "no_bold (trim s @ post)" by (rule no_bold_right)
  then show ?thesis by (rule no_bold_left)
qed

lemma breaks_collapsed_trim: "breaks_collapsed s \<Longrightarrow> breaks_collapsed (trim s)"
proof -
  assume s: "breaks_collapsed s"
  obtain pre post where "s = pre @ trim s @ post"
    using trim_infix by blast
  then have "breaks_collapsed (pre @ trim s @ post)" using s by simp
  then have "breaks_collapsed (trim s @ post)" by (rule breaks_collapsed_right)
  then show ?thesis by (rule breaks_collapsed_left)
qed

lemma clean_spec_no_bold: "no_bold (clean_spec text)"
proof (cases "text")
  case None
  then show ?thesis by (simp add: clean_spec_def)
next
  case (Some t)
  have "no_bold (trim (collapse_breaks (strip_quotes True (remove_bold t))))"
    by (intro no_bold_trim no_bold_collapse no_bold_strip no_bold_remove)
  then show ?thesis
    by (simp add: clean_spec_def Some)
qed

lemma clean_spec_breaks: "breaks_collapsed (clean_spec text)"
proof (cases "text")
  case None
  then show ?thesis by (simp add: clean_spec_def)
next
  case (Some t)
  have "breaks_collapsed (trim (collapse_breaks (strip_quotes True (remove_bold t))))"
    by (intro breaks_collapsed_trim breaks_collapsed_collapse)
  then show ?thesis
    by (simp add: clean_spec_def Some)
qed

lemma remove_bold_id: "0x2A \<notin> set s \<Longrightarrow> remove_bold s = s"
  by (induction s rule: remove_bold.induct) auto

lemma strip_quotes_id: "0x3E \<notin> set s \<Longrightarrow> strip_quotes bol s = s"
  by (induction s arbitrary: bol) auto

lemma collapse_breaks_id: "0x0A \<notin> set s \<Longrightarrow> collapse_breaks s = s"
proof (induction s)
  case Nil
  then show ?case by simp
next
  case (Cons x s)
  then have "\<not> (s \<noteq> [] \<and> hd s = 0x0A)"
    by (cases s) auto
  then show ?case using Cons by auto
qed

section \<open>Properties\<close>

subsection \<open>clean\<close>

text \<open>
  C7: cleaning the about text \<open>"**Hello** world\n> quoted line"\<close> yields
  \<open>"Hello world\nquoted line"\<close>, and for every text \<open>clean\<close> does the four steps: it
  is the text with the bold markers removed, the block-quote markers stripped at line
  starts, each line break with the whitespace after it collapsed to one line break, and
  the whole trimmed. So the result holds no \<open>**\<close>, no line break followed by
  whitespace, and no whitespace at either end; a text without asterisk, \<open>>\<close> and line
  break is only trimmed.
\<close>

theorem clean_steps:
  "clean (Some (js ''**Hello** world'' @ [0x0A] @ js ''> quoted line''))
     = js ''Hello world'' @ [0x0A] @ js ''quoted line''
   \<and> clean text = clean_spec text
   \<and> no_bold (clean text) \<and> breaks_collapsed (clean text)
   \<and> (clean text = [] \<or> (\<not> is_space (hd (clean text)) \<and> \<not> is_space (last (clean text))))
   \<and> ((\<forall>c\<in>set t. c \<noteq> 0x2A \<and> c \<noteq> 0x3E \<and> c \<noteq> 0x0A) \<longrightarrow> clean (Some t) = trim t)"
proof -
  have ex: "clean (Some (js ''**Hello** world'' @ [0x0A] @ js ''> quoted line''))
     = js ''Hello world'' @ [0x0A] @ js ''quoted line''"
    by code_simp
  have plain: "clean (Some t) = trim t" if "\<forall>c\<in>set t. c \<noteq> 0x2A \<and> c \<noteq> 0x3E \<and> c \<noteq> 0x0A"
  proof -
    have "0x2A \<notin> set t" "0x3E \<notin> set t" "0x0A \<notin> set t"
      using that by auto
    then show ?thesis
      by (simp add: clean_refines clean_spec_def remove_bold_id strip_quotes_id collapse_breaks_id)
  qed
  show ?thesis
    using ex plain clean_trimmed [of "text"] clean_spec_no_bold [of "text"] clean_spec_breaks [of "text"]
    by (simp add: clean_refines)
qed

theorem clean_steps_witness:
  "clean (Some (js ''  **a** '' @ [0x0D, 0x0A, 0x0A] @ js ''   > b  '' @ [0x0A] @ js ''> c''))
     = js ''a '' @ [0x0A] @ js ''> b  '' @ [0x0A] @ js ''c''
   \<and> clean (Some (js ''  plain text '')) = js ''plain text''"
proof -
  have e: "clean_spec (Some (js ''  **a** '' @ [0x0D, 0x0A, 0x0A] @ js ''   > b  '' @ [0x0A] @ js ''> c''))
     = js ''a '' @ [0x0A] @ js ''> b  '' @ [0x0A] @ js ''c''"
    by code_simp
  have h: "\<forall>c\<in>set (js ''  plain text ''). c \<noteq> 0x2A \<and> c \<noteq> 0x3E \<and> c \<noteq> 0x0A"
    by code_simp
  have t: "trim (js ''  plain text '') = js ''plain text''"
    by code_simp
  show ?thesis
    using e h t
      clean_steps [of "Some (js ''  **a** '' @ [0x0D, 0x0A, 0x0A] @ js ''   > b  '' @ [0x0A] @ js ''> c'')"
        "js ''  plain text ''"]
    by simp
qed

subsection \<open>The box width\<close>

text \<open>
  C8, as stated, fails for a reported column count of 0: \<open>0 || 80\<close> is 80, so the width
  is 80 and not 0 clamped into [60, 100], which is 60.
\<close>

theorem box_width_zero_columns:
  "box_width (Some 0) = 80 \<and> max 60 (min (0::int) 100) = 60"
  by (simp add: box_width_def)

text \<open>
  C8, amended: for every reported column count \<open>c\<close> other than 0 the box width is \<open>c\<close>
  clamped into [60, 100]; when the count is 0 or not available the width is 80.
\<close>

theorem box_width_clamps:
  "(c \<noteq> 0 \<longrightarrow> box_width (Some c) = max 60 (min c 100))
   \<and> box_width (Some 0) = 80 \<and> box_width None = 80"
  by (simp add: box_width_def)

theorem box_width_clamps_witness:
  "(120::int) \<noteq> 0 \<and> box_width (Some 120) = 100 \<and> box_width (Some 0) = 80 \<and> box_width None = 80"
  using box_width_clamps [of 120] by simp

subsection \<open>Errors\<close>










subsection \<open>Sections of the box\<close>

text \<open>
  C2 at the empty profile: the box has five rows. The header is the fallback name and
  there is no about section, but the \<open>DETAILS\<close> and \<open>CONTACT\<close> divider rows are there
  although neither section has a field: \<open>render\<close> puts these two dividers into \<open>lines\<close>
  unconditionally, and only the \<open>about\<close> divider under a condition.
\<close>

theorem render_empty_profile:
  "render_rows empty_profile None =
     [[0x256D] @ js '' Profile '' @ replicate 69 0x2500 @ [0x256E],
      boxLine (cyan (bold (js ''Zephinax''))) 80,
      [0x251C] @ js '' DETAILS '' @ replicate 69 0x2500 @ [0x2524],
      [0x251C] @ js '' CONTACT '' @ replicate 69 0x2500 @ [0x2524],
      [0x2570] @ replicate 78 0x2500 @ [0x256F]]"
  by code_simp

subsection \<open>Visible length\<close>

text \<open>
  C6, as stated, fails: stripping is a single pass, and what it leaves can form a new
  escape sequence. In \<open>ESC ESC A A\<close> the pass removes the second \<open>ESC A\<close>; the rest,
  \<open>ESC A\<close>, is an escape sequence, so the visible length is 2 before and 0 after stripping.
\<close>

theorem stripAnsi_twice_differs:
  "visibleLength (stripAnsi [0x1B, 0x1B, 0x41, 0x41]) = 0 \<and> visibleLength [0x1B, 0x1B, 0x41, 0x41] = 2"
  by code_simp

text \<open>
  C6, amended: \<open>visibleLength(stripAnsi(s))\<close> equals \<open>visibleLength(s)\<close> for every string
  \<open>s\<close> in which every escape introducer (U+001B or U+009B) begins an escape sequence,
  and for every string that the colour helpers and concatenation build from texts without
  escape introducers; stripping such a styled string leaves exactly its text.
\<close>

theorem stripAnsi_idempotent:
  "(well_escaped s \<longrightarrow>
      stripAnsi (stripAnsi s) = stripAnsi s \<and> visibleLength (stripAnsi s) = visibleLength s)
   \<and> (escape_free d \<longrightarrow>
      stripAnsi (printed d) = text_of d
      \<and> visibleLength (stripAnsi (printed d)) = visibleLength (printed d))"
proof -
  have a: "stripAnsi (stripAnsi s) = stripAnsi s" if "well_escaped s"
    using strip_well_escaped [OF that, of None] by (intro stripAnsi_plain) (simp add: stripAnsi_def)
  have b: "stripAnsi (printed d) = text_of d" if "escape_free d"
    using strip_printed [OF that, of "[]"] by (simp add: stripAnsi_plain)
  have c: "stripAnsi (text_of d) = text_of d" if "escape_free d"
    using escape_free_text [OF that] by (rule stripAnsi_plain)
  show ?thesis
    using a b c by (simp add: visibleLength_def)
qed

theorem stripAnsi_idempotent_witness:
  "stripAnsi (cyan (bold (js ''Zephinax'')) @ js '' '' @ dim (js ''(they)'')) = js ''Zephinax (they)''
   \<and> visibleLength (stripAnsi (cyan (bold (js ''Zephinax'')) @ js '' '' @ dim (js ''(they)'')))
       = visibleLength (cyan (bold (js ''Zephinax'')) @ js '' '' @ dim (js ''(they)''))"
proof -
  let ?d = "Cat (Styled Cyan (Styled Bold (Plain (js ''Zephinax''))))
              (Cat (Plain (js '' '')) (Styled Dim (Plain (js ''(they)''))))"
  have p: "printed ?d = cyan (bold (js ''Zephinax'')) @ js '' '' @ dim (js ''(they)'')"
    by simp
  have t: "text_of ?d = js ''Zephinax (they)''"
    by (simp add: js_def)
  have e: "escape_free ?d"
    by code_simp
  have w: "well_escaped (printed ?d)"
    by code_simp
  show ?thesis
    using stripAnsi_idempotent [of "printed ?d" ?d] e w unfolding p t by blast
qed

subsection \<open>boxLine\<close>

text \<open>
  C1, as stated, fails for narrow boxes: the frame and the margin alone take six columns,
  and a truncated text keeps its ellipsis. For width 6 and the text \<open>a\<close> the row is
  seven columns wide.
\<close>

theorem boxLine_narrow: "visibleLength (boxLine (js ''a'') 6) = 7"
  by code_simp

text \<open>
  C1, amended: the row \<open>boxLine(text, width)\<close> has visible length exactly \<open>width\<close> if and
  only if \<open>width\<close> is at least 7, or \<open>width\<close> is 6 and the text has no visible character.
  For every width of at least 7 and every text, truncated or not, the row is the frame and
  margin around a body of visible length \<open>width - 4 - 2 * margin\<close>.
\<close>

theorem boxLine_visible_width:
  "(int (visibleLength (boxLine text width)) = width
      \<longleftrightarrow> 7 \<le> width \<or> (width = 6 \<and> visibleLength text = 0))
   \<and> (7 \<le> width \<longrightarrow>
        (\<exists>body. boxLine text width = [0x2502, 0x20, 0x20] @ body @ [0x20, 0x20, 0x2502]
           \<and> int (visibleLength body) = width - 4 - 2 * CONTENT_MARGIN))"
proof -
  define inner where "inner = max 0 (width - 6)"
  define t where "t = slice (stripAnsi text) 0 (inner - 1)"
  define raw where "raw = (if int (visibleLength text) > inner then t @ [0x2026] else text)"
  define padding where "padding = nat (max 0 (inner - int (visibleLength raw)))"
  have row: "boxLine text width = [0x2502, 0x20, 0x20] @ (raw @ replicate padding 0x20) @ [0x20, 0x20, 0x2502]"
    unfolding boxLine_def CONTENT_MARGIN_def Let_def repeat_single raw_def padding_def inner_def t_def
    by simp
  have total: "int (visibleLength (boxLine text width)) = 6 + int (visibleLength raw) + int padding"
    unfolding boxLine_visibleLength Let_def raw_def padding_def inner_def t_def by simp
  have vt: "visibleLength (t @ [0x2026]) = Suc (visibleLength t)"
    by (rule visibleLength_snoc [OF not_ansi_ellipsis])
  have fits: "int (visibleLength raw) \<le> inner" if w: "7 \<le> width"
  proof (cases "int (visibleLength text) > inner")
    case True
    have "t = take (nat (width - 7)) (stripAnsi text)"
      using w by (simp add: t_def inner_def slice_prefix)
    then have "length t = nat (width - 7)"
      using True w by (simp add: visibleLength_def inner_def)
    then have "int (visibleLength t) \<le> width - 7"
      using visibleLength_le [of t] w by linarith
    then show ?thesis
      using True w vt by (simp add: raw_def inner_def)
  next
    case False
    then show ?thesis by (simp add: raw_def)
  qed
  have wide: "int (visibleLength raw) + int padding = width - 6" if w: "7 \<le> width"
    using fits [OF w] w by (simp add: padding_def inner_def)
  have narrow: "int (visibleLength (boxLine text width)) = width \<longleftrightarrow> width = 6 \<and> visibleLength text = 0"
    if w: "\<not> 7 \<le> width"
    using w vt unfolding total by (auto simp: raw_def padding_def inner_def)
  have "int (visibleLength (raw @ replicate padding 0x20)) = width - 4 - 2 * CONTENT_MARGIN"
    if w: "7 \<le> width"
    using wide [OF w] by (simp add: visibleLength_pad CONTENT_MARGIN_def)
  then show ?thesis
    using row wide narrow total by (cases "7 \<le> width") auto
qed

theorem boxLine_visible_width_witness:
  "int (visibleLength (boxLine (js ''a long line of text'') 10)) = 10
   \<and> (\<exists>body. boxLine (js ''a long line of text'') 10 = [0x2502, 0x20, 0x20] @ body @ [0x20, 0x20, 0x2502]
           \<and> int (visibleLength body) = 10 - 4 - 2 * CONTENT_MARGIN)"
  using boxLine_visible_width [of "js ''a long line of text''" 10] by simp

subsection \<open>wrapText\<close>

text \<open>
  C3: for every text and every width \<open>w > 0\<close>, with indent 0, if no whitespace-delimited
  word of the text is longer than \<open>w\<close> then every line of \<open>wrapText(text, w, 0)\<close> has
  visible length at most \<open>w\<close> (and length at most \<open>w\<close>).
\<close>

theorem wrapText_lines_fit:
  assumes "0 < width" and "\<forall>word\<in>set (tokens text). int (length word) \<le> width"
  shows "\<forall>line\<in>set (wrapText text width 0).
           int (visibleLength line) \<le> width \<and> int (length line) \<le> width"
proof
  fix line assume "line \<in> set (wrapText text width 0)"
  then obtain para l where ne: "text \<noteq> []" and para: "para \<in> set (split re_newline text)"
    and l: "l \<in> set (pack width (tokens para))" and line: "line = repeat [0x20] 0 @ l"
    by (rule wrapText_line_cases)
  have "\<forall>w\<in>set (tokens para). int (length w) \<le> width"
    using assms(2) para_tokens_subset [OF ne para] by blast
  then have "int (length l) \<le> width"
    using assms(1) l by (intro pack_fits [of width "tokens para"]) simp_all
  then show "int (visibleLength line) \<le> width \<and> int (length line) \<le> width"
    using visibleLength_le [of line] by (simp add: line repeat_def)
qed

theorem wrapText_lines_fit_witness:
  "wrapText (js ''the quick brown fox'') 10 0 = [js ''the quick'', js ''brown fox'']
   \<and> int (visibleLength (js ''the quick'')) \<le> 10 \<and> int (visibleLength (js ''brown fox'')) \<le> 10"
proof -
  have w: "wrapText (js ''the quick brown fox'') 10 0 = [js ''the quick'', js ''brown fox'']"
    by code_simp
  have h: "\<forall>word\<in>set (tokens (js ''the quick brown fox'')). int (length word) \<le> 10"
    by code_simp
  show ?thesis
    using wrapText_lines_fit [of 10 "js ''the quick brown fox''", OF _ h] w by simp
qed

text \<open>
  C4, as stated, fails: the words of a paragraph are rejoined with one space each, so a
  short paragraph with two spaces between its words does not wrap to itself.
\<close>

theorem wrapText_collapses_spaces:
  "wrapText (js ''a  b'') 10 0 = [js ''a b''] \<and> trim (js ''a  b'') = js ''a  b''"
  by code_simp

text \<open>
  C4, amended: for every single-line paragraph that is not empty after trimming and whose
  trimmed length is at most \<open>width\<close>, \<open>wrapText\<close> returns exactly one line, the words of
  the paragraph joined by one space each (after the indent); that line is the trimmed
  paragraph itself when the trimmed paragraph is single-spaced.
\<close>

theorem wrapText_short_paragraph:
  assumes "0x0A \<notin> set text" and "trim text \<noteq> []" and "int (length (trim text)) \<le> width"
  shows "wrapText text width indent = [repeat [0x20] indent @ join [0x20] (tokens text)]
       \<and> (single_spaced (trim text) \<longrightarrow> join [0x20] (tokens text) = trim text)"
proof -
  have ne: "text \<noteq> []" using assms(2) by (auto simp: trim_Nil)
  have paras: "split re_newline text = [text]"
    using ne split_newline_single [OF assms(1), of "[]" None] by (simp add: split_def)
  have tt: "tokens text = tokens_acc [] (trim text)"
    using tokens_trim [of "text"] by (simp add: tokens_def)
  obtain x xs where tr: "trim text = x # xs" using assms(2) by (cases "trim text") auto
  have "\<not> is_space x" using trim_hd [OF assms(2)] tr by simp
  then have toks: "tokens text \<noteq> []"
    unfolding tt tr by (simp add: tokens_acc_nonempty)
  then have "hd (tokens text) \<in> set (tokens text)" by simp
  then have hd: "hd (tokens text) \<noteq> []"
    using tokens_solid solid_def by blast
  have "length (join [0x20] (tokens text)) \<le> length (trim text)"
    unfolding tt using length_join_tokens [of "[]" "trim text"] by simp
  then have "int (length (join [0x20] (tokens text))) \<le> width"
    using assms(3) by linarith
  then have "pack width (tokens text) = [join [0x20] (tokens text)]"
    using toks hd by (intro pack_one_line)
  then have one: "wrapText text width indent = [repeat [0x20] indent @ join [0x20] (tokens text)]"
    unfolding wrapText_paras [OF ne] paras by simp
  have "join [0x20] (tokens text) = trim text" if "single_spaced (trim text)"
    unfolding tt using join_tokens_single_spaced [OF that, of "[]"] by simp
  then show ?thesis using one by blast
qed

theorem wrapText_short_paragraph_witness:
  "wrapText (js ''  hello world '') 20 0 = [js ''hello world'']"
proof -
  have h1: "0x0A \<notin> set (js ''  hello world '')" by code_simp
  have h2: "trim (js ''  hello world '') \<noteq> []" by code_simp
  have h3: "int (length (trim (js ''  hello world ''))) \<le> 20" by code_simp
  have h4: "single_spaced (trim (js ''  hello world ''))" by code_simp
  have h5: "trim (js ''  hello world '') = js ''hello world''" by code_simp
  show ?thesis
    using wrapText_short_paragraph [OF h1 h2 h3, of 0] h4 h5 by (simp add: repeat_def)
qed

text \<open>
  C5: for every text, width and indent, a word of the text that is longer than \<open>width\<close>
  is a line of the output as it is, after the indent: it shares its line with no other
  word and is not broken.
\<close>

theorem wrapText_long_word:
  assumes "word \<in> set (tokens text)" and "width < int (length word)"
  shows "repeat [0x20] indent @ word \<in> set (wrapText text width indent)"
proof -
  have ne: "text \<noteq> []" using assms(1) by (auto simp: tokens_Nil)
  obtain para where para: "para \<in> set (split re_newline text)" "word \<in> set (tokens para)"
    using assms(1) unfolding tokens_paras [OF ne, symmetric] by auto
  have "word \<noteq> []" using tokens_solid [OF assms(1)] by (simp add: solid_def)
  then have "word \<in> set (pack width (tokens para))"
    unfolding pack_def using para(2) assms(2) by (intro foldl_wrap_long_word)
  then show ?thesis
    using para(1) unfolding wrapText_paras [OF ne] by auto
qed

theorem wrapText_long_word_witness:
  "js ''incomprehensible'' \<in> set (wrapText (js ''an incomprehensible word'') 7 0)"
proof -
  have h1: "js ''incomprehensible'' \<in> set (tokens (js ''an incomprehensible word''))"
    by code_simp
  have h2: "7 < int (length (js ''incomprehensible''))"
    by code_simp
  show ?thesis
    using wrapText_long_word [OF h1 h2, of 0] by (simp add: repeat_def)
qed

text \<open>
  C10: every line of \<open>wrapText\<close> is the indent followed by a single-spaced line: words
  with exactly one space between them, so no tab, no run of two or more spaces and no
  other whitespace of the paragraph survives.
\<close>

theorem wrapText_single_spaced:
  assumes "line \<in> set (wrapText text width indent)"
  shows "take indent line = replicate indent 0x20 \<and> single_spaced (drop indent line)"
proof -
  obtain para l where "l \<in> set (pack width (tokens para))" and line: "line = repeat [0x20] indent @ l"
    using assms by (rule wrapText_line_cases)
  then have "single_spaced l"
    using tokens_solid by (intro pack_single_spaced [of "tokens para" l width]) blast+
  then show ?thesis
    by (simp add: line repeat_single)
qed

theorem wrapText_single_spaced_witness:
  "js ''  a b'' \<in> set (wrapText (js ''a   '' @ [0x09] @ js '' b'') 10 2)
   \<and> take 2 (js ''  a b'') = replicate 2 0x20 \<and> single_spaced (drop 2 (js ''  a b''))"
proof -
  have h: "js ''  a b'' \<in> set (wrapText (js ''a   '' @ [0x09] @ js '' b'') 10 2)"
    by code_simp
  show ?thesis
    using h wrapText_single_spaced [OF h] by simp
qed

end
